theory Spec2Isabelle
  imports Main
begin

section \<open>Data model of \<open>cmd/ping.go\<close>\<close>

text \<open>
  A \<open>*view.HistoryItem\<close> is a pointer: either \<open>nil\<close> or the address of an item in
  the store. The store maps every address to the item it holds, so that a write through
  one handle is seen through every other handle of the same item (the history and the
  measurements buffer share their items).
\<close>

datatype ptr = nil | Ref nat

text \<open>
  \<open>globalping.MeasurementStatus\<close> is declared outside \<open>src/\<close>. The code names two
  of its values, \<open>StatusInProgress\<close> and \<open>StatusFinished\<close>, and treats every value
  other than \<open>StatusInProgress\<close> as terminal; \<open>StatusOther\<close> stands for the rest.
\<close>

datatype MeasurementStatus = StatusInProgress | StatusFinished | StatusOther string

record HistoryItem =
  Id :: string
  Status :: MeasurementStatus
  StartedAt :: int
  IsPartiallyFinished :: bool

type_synonym store = "nat \<Rightarrow> HistoryItem"

text \<open>Run-time panics of the Go program, as values.\<close>

datatype panic = NilPointerDereference | IndexOutOfRange | MakeSliceCapOutOfRange

subsection \<open>\<open>MeasurementsBuffer\<close> (lines 221--279)\<close>

record MeasurementsBuffer =
  capacity :: int
  items :: "ptr list"
  pos :: int

text \<open>
  \<open>make([]*view.HistoryItem, 0, capacity)\<close> panics on a negative capacity. (It also
  panics on a capacity beyond what the allocator accepts; the model covers the capacities
  it accepts.)
\<close>

definition NewMeasurementsBuffer :: "int \<Rightarrow> panic + MeasurementsBuffer" where
  "NewMeasurementsBuffer c =
     (if c < 0 then Inl MakeSliceCapOutOfRange
      else Inr \<lparr>capacity = c, items = [], pos = 0\<rparr>)"

definition Len :: "MeasurementsBuffer \<Rightarrow> int" where
  "Len b = int (length (items b))"

text \<open>
  \<open>Next\<close> returns \<open>nil\<close> when the cursor is at or past the end; otherwise it advances
  the cursor and returns \<open>b.items[b.pos-1]\<close>, which panics for a negative index.
\<close>

definition Next :: "MeasurementsBuffer \<Rightarrow> panic + (ptr \<times> MeasurementsBuffer)" where
  "Next b =
     (if pos b \<ge> int (length (items b)) then Inr (nil, b)
      else if pos b < 0 then Inl IndexOutOfRange
      else Inr (items b ! nat (pos b), b\<lparr>pos := pos b + 1\<rparr>))"

definition Restart :: "MeasurementsBuffer \<Rightarrow> MeasurementsBuffer" where
  "Restart b = b\<lparr>pos := 0\<rparr>"

text \<open>\<open>Append\<close> is Go's \<open>append\<close>: it never looks at the capacity.\<close>

definition Append :: "ptr \<Rightarrow> MeasurementsBuffer \<Rightarrow> MeasurementsBuffer" where
  "Append hm b = b\<lparr>items := items b @ [hm]\<rparr>"

text \<open>
  The loop of \<open>Remove\<close>: \<open>i\<close> is the index of the head of the remaining items,
  the pair holds \<open>newb\<close> and the current \<open>b.pos\<close>. The test \<open>i < b.pos\<close> reads the
  cursor as already decremented by earlier iterations.
\<close>

fun Remove_loop :: "ptr \<Rightarrow> nat \<Rightarrow> ptr list \<Rightarrow> ptr list \<times> int \<Rightarrow> ptr list \<times> int" where
  "Remove_loop el i [] (newb, p) = (newb, p)"
| "Remove_loop el i (item # rest) (newb, p) =
     (if item \<noteq> el then Remove_loop el (Suc i) rest (newb @ [item], p)
      else if int i < p then Remove_loop el (Suc i) rest (newb, p - 1)
      else Remove_loop el (Suc i) rest (newb, p))"

definition Remove :: "ptr \<Rightarrow> MeasurementsBuffer \<Rightarrow> panic + MeasurementsBuffer" where
  "Remove el b =
     (if items b = [] then Inr b
      else if capacity b < 0 then Inl MakeSliceCapOutOfRange
      else (case Remove_loop el 0 (items b) ([], pos b) of
              (newb, p) \<Rightarrow> Inr (b\<lparr>items := newb, pos := p\<rparr>)))"

text \<open>
  The loop of \<open>CanAppend\<close> reads \<open>el.IsPartiallyFinished\<close> through each handle in
  turn; reading through \<open>nil\<close> panics.
\<close>

fun CanAppend_loop :: "store \<Rightarrow> ptr list \<Rightarrow> panic + bool" where
  "CanAppend_loop h [] = Inr False"
| "CanAppend_loop h (nil # rest) = Inl NilPointerDereference"
| "CanAppend_loop h (Ref a # rest) =
     (if IsPartiallyFinished (h a) then Inr True else CanAppend_loop h rest)"

definition CanAppend :: "store \<Rightarrow> MeasurementsBuffer \<Rightarrow> panic + bool" where
  "CanAppend h b =
     (if int (length (items b)) \<ge> capacity b then Inr False
      else CanAppend_loop h (items b))"

text \<open>\<open>n\<close> successive calls of \<open>Next\<close>: the handles returned, in order, and the buffer left.\<close>

fun Nexts :: "nat \<Rightarrow> MeasurementsBuffer \<Rightarrow> panic + (ptr list \<times> MeasurementsBuffer)" where
  "Nexts 0 b = Inr ([], b)"
| "Nexts (Suc n) b =
     (case Next b of
        Inl e \<Rightarrow> Inl e
      | Inr (el, b1) \<Rightarrow>
          (case Nexts n b1 of
             Inl e \<Rightarrow> Inl e
           | Inr (els, b2) \<Rightarrow> Inr (el # els, b2)))"

text \<open>A sequence of calls on a buffer, as a caller can issue them.\<close>

datatype buffer_op = OpRestart | OpNext | OpAppend ptr | OpRemove ptr

fun apply_op :: "buffer_op \<Rightarrow> MeasurementsBuffer \<Rightarrow> panic + MeasurementsBuffer" where
  "apply_op OpRestart b = Inr (Restart b)"
| "apply_op OpNext b = (case Next b of Inl e \<Rightarrow> Inl e | Inr (el, b1) \<Rightarrow> Inr b1)"
| "apply_op (OpAppend hm) b = Inr (Append hm b)"
| "apply_op (OpRemove el) b = Remove el b"

fun run_ops :: "buffer_op list \<Rightarrow> MeasurementsBuffer \<Rightarrow> panic + MeasurementsBuffer" where
  "run_ops [] b = Inr b"
| "run_ops (x # xs) b = (case apply_op x b of Inl e \<Rightarrow> Inl e | Inr b1 \<Rightarrow> run_ops xs b1)"

text \<open>
  A sequence of calls is guarded when each of its appends is issued on a buffer
  with spare capacity, as after a successful \<open>CanAppend\<close>.
\<close>

fun guarded :: "buffer_op list \<Rightarrow> MeasurementsBuffer \<Rightarrow> bool" where
  "guarded [] b = True"
| "guarded (x # xs) b =
     ((case x of OpAppend hm \<Rightarrow> int (length (items b)) < capacity b | _ \<Rightarrow> True) \<and>
      (case apply_op x b of Inl e \<Rightarrow> True | Inr b1 \<Rightarrow> guarded xs b1))"

text \<open>
  A sequence of calls appends fresh handles when no append adds a handle that the
  buffer holds at that moment.
\<close>

fun fresh_appends :: "buffer_op list \<Rightarrow> MeasurementsBuffer \<Rightarrow> bool" where
  "fresh_appends [] b = True"
| "fresh_appends (x # xs) b =
     ((case x of OpAppend hm \<Rightarrow> hm \<notin> set (items b) | _ \<Rightarrow> True) \<and>
      (case apply_op x b of Inl e \<Rightarrow> True | Inr b1 \<Rightarrow> fresh_appends xs b1))"

subsection \<open>Requests, responses and the session context\<close>

record Locations =
  Magic :: string

record MeasurementOptions =
  moPackets :: int

record MeasurementCreate =
  mcType :: string
  mcTarget :: string
  mcLimit :: int
  mcInProgressUpdates :: bool
  mcOptions :: MeasurementOptions
  mcLocations :: "Locations list"

record MeasurementCreateResponse =
  ID :: string

record ProbeResult =
  prStatus :: MeasurementStatus

record ProbeMeasurement =
  Result :: ProbeResult

record Measurement =
  mID :: string
  mStatus :: MeasurementStatus
  Results :: "ProbeMeasurement list"

text \<open>
  Modelled from the spec: \<open>view.HistoryBuffer\<close> is declared outside \<open>src/\<close>. The spec
  describes a fixed-capacity circular store with a write index that wraps modulo the
  capacity and a count of the items ever created; \<open>push\<close> writes at the write index,
  advances it and increments the count; \<open>last\<close> returns the most recently pushed item,
  or a not-found signal (\<open>nil\<close> here) when nothing has been created yet.
\<close>

record HistoryBuffer =
  hcapacity :: nat
  slots :: "ptr list"
  writeIndex :: nat
  createdCount :: nat

definition NewHistoryBuffer :: "nat \<Rightarrow> HistoryBuffer" where
  "NewHistoryBuffer c = \<lparr>hcapacity = c, slots = replicate c nil, writeIndex = 0, createdCount = 0\<rparr>"

definition Push :: "ptr \<Rightarrow> HistoryBuffer \<Rightarrow> HistoryBuffer" where
  "Push hm h =
     (if hcapacity h = 0 then h\<lparr>createdCount := createdCount h + 1\<rparr>
      else h\<lparr>slots := (slots h)[writeIndex h := hm],
             writeIndex := (writeIndex h + 1) mod hcapacity h,
             createdCount := createdCount h + 1\<rparr>)"

definition Last :: "HistoryBuffer \<Rightarrow> ptr" where
  "Last h =
     (if createdCount h = 0 \<or> hcapacity h = 0 then nil
      else (let i = (writeIndex h + hcapacity h - 1) mod hcapacity h
            in if i < length (slots h) then slots h ! i else nil))"

text \<open>The fields of \<open>view.Context\<close> that \<open>ping.go\<close> reads or writes.\<close>

record Context =
  Target :: string
  Limit :: int
  CIMode :: bool
  Packets :: int
  Infinite :: bool
  RecordToSession :: bool
  MeasurementsCreated :: int
  History :: HistoryBuffer
  APIMinInterval :: int

subsection \<open>The collaborators and their calls\<close>

text \<open>
  Every call on a collaborator (the API client, the viewer, the clock, the printer, the
  session file) is appended to a trace. A collaborator's answer may depend on the whole
  trace so far and on the arguments of the call.
\<close>

datatype event =
    CallCreateMeasurement MeasurementCreate
  | CallGetMeasurement string
  | CallOutputInfinite Measurement
  | CallOutput string MeasurementCreate
  | CallOutputSummary
  | CallNow
  | CallSleep int
  | CallPrintf string
  | CallSaveIdToSession string

text \<open>Go \<open>error\<close> values, tagged by the call that produced them.\<close>

datatype error =
    Errorf string
  | CreateMeasurementError string
  | GetMeasurementError string
  | OutputInfiniteError string
  | OutputError string
  | UpdateContextError string
  | GetLocationsError string
  | SaveIdToSessionError string

fun Error :: "error \<Rightarrow> string" where
  "Error (Errorf s) = s"
| "Error (CreateMeasurementError s) = s"
| "Error (GetMeasurementError s) = s"
| "Error (OutputInfiniteError s) = s"
| "Error (OutputError s) = s"
| "Error (UpdateContextError s) = s"
| "Error (GetLocationsError s) = s"
| "Error (SaveIdToSessionError s) = s"

text \<open>
  The state of \<open>Root\<close> and of the world around it: the context, cobra's
  \<open>SilenceUsage\<close>, the store of history items with the next free address, the trace
  of calls, and the lines of the session file.
\<close>

record Root =
  ctx :: Context
  SilenceUsage :: bool
  heap :: store
  next_addr :: nat
  trace :: "event list"
  session :: "string list"

text \<open>
  The collaborators. \<open>CreateMeasurement\<close> answers either with an error message and the
  \<open>showHelp\<close> flag or with the response; \<open>GetMeasurement\<close> with an error message or
  the measurement; the viewer's calls with an optional error message. \<open>updateContext\<close>
  and \<open>getLocations\<close> are methods of \<open>Root\<close> defined outside \<open>src/\<close>: they are taken
  as parameters that update the context and issue no call of their own. \<open>saveFault\<close>
  decides whether a write to the session file fails.
\<close>

record Env =
  CreateMeasurement :: "event list \<Rightarrow> MeasurementCreate \<Rightarrow> (string \<times> bool) + MeasurementCreateResponse"
  GetMeasurement :: "event list \<Rightarrow> string \<Rightarrow> string + Measurement"
  OutputInfinite :: "event list \<Rightarrow> Measurement \<Rightarrow> string option"
  Output :: "event list \<Rightarrow> string \<Rightarrow> MeasurementCreate \<Rightarrow> string option"
  Now :: "event list \<Rightarrow> int"
  saveFault :: "event list \<Rightarrow> string \<Rightarrow> string option"
  updateContext :: "string \<Rightarrow> string list \<Rightarrow> Context \<Rightarrow> string option \<times> Context"
  getLocations :: "Root \<Rightarrow> (string + Locations list) \<times> Context"

text \<open>
  Modelled from the spec: \<open>saveIdToSession\<close> is defined outside \<open>src/\<close>. The spec
  describes a best-effort append of the newly created measurement id to a session-scoped
  record, one id per line, that may fail with an error.
\<close>

definition saveIdToSession :: "Env \<Rightarrow> string \<Rightarrow> Root \<Rightarrow> error option \<times> Root" where
  "saveIdToSession env mid r =
     (let r0 = r\<lparr>trace := trace r @ [CallSaveIdToSession mid]\<rparr>
      in case saveFault env (trace r) mid of
           Some msg \<Rightarrow> (Some (SaveIdToSessionError msg), r0)
         | None \<Rightarrow> (None, r0\<lparr>session := session r0 @ [mid]\<rparr>))"

subsection \<open>\<open>createMeasurement\<close> (lines 196--219)\<close>

text \<open>
  The result is \<open>Inl err\<close> for \<open>(nil, err)\<close> and \<open>Inr hm\<close> for \<open>(hm, nil)\<close>. A new
  history item is allocated at the next free address.
\<close>

definition createMeasurement :: "Env \<Rightarrow> MeasurementCreate \<Rightarrow> Root \<Rightarrow> (error + ptr) \<times> Root" where
  "createMeasurement env opts r =
     (let r0 = r\<lparr>trace := trace r @ [CallCreateMeasurement opts]\<rparr>
      in case CreateMeasurement env (trace r) opts of
           Inl (msg, showHelp) \<Rightarrow>
             (Inl (CreateMeasurementError msg),
              if \<not> showHelp then r0\<lparr>SilenceUsage := True\<rparr> else r0)
         | Inr res \<Rightarrow>
             (let r1 = r0\<lparr>ctx := (ctx r0)\<lparr>MeasurementsCreated := MeasurementsCreated (ctx r0) + 1\<rparr>\<rparr>;
                  a = next_addr r1;
                  hm = \<lparr>Id = ID res, Status = StatusInProgress,
                        StartedAt = Now env (trace r1), IsPartiallyFinished = False\<rparr>;
                  r2 = r1\<lparr>trace := trace r1 @ [CallNow], heap := (heap r1)(a := hm),
                          next_addr := Suc a\<rparr>;
                  r3 = r2\<lparr>ctx := (ctx r2)\<lparr>History := Push (Ref a) (History (ctx r2))\<rparr>\<rparr>
              in if RecordToSession (ctx r3) then
                   (case saveIdToSession env (ID res)
                           (r3\<lparr>ctx := (ctx r3)\<lparr>RecordToSession := False\<rparr>\<rparr>) of
                      (Some err, r4) \<Rightarrow>
                        (Inr (Ref a),
                         r4\<lparr>trace := trace r4 @ [CallPrintf (''Warning: '' @ Error err @ [CHR 0x0A])]\<rparr>)
                    | (None, r4) \<Rightarrow> (Inr (Ref a), r4))
                 else (Inr (Ref a), r3)))"

subsection \<open>\<open>IsPartiallyFinished\<close> (lines 184--194)\<close>

text \<open>
  The method of \<open>Root\<close>; the field of \<open>HistoryItem\<close> has taken the plain name. The
  loop returns true at the first finished probe, false if there is none.
\<close>

definition Root_IsPartiallyFinished :: "Measurement \<Rightarrow> bool" where
  "Root_IsPartiallyFinished m =
     (if mStatus m \<noteq> StatusInProgress then False
      else list_ex (\<lambda>pm. prStatus (Result pm) = StatusFinished) (Results m))"

subsection \<open>\<open>ping\<close> (lines 121--182)\<close>

text \<open>The locals of \<open>ping\<close> next to the state of \<open>Root\<close>.\<close>

record PingState =
  root :: Root
  opts :: MeasurementCreate
  mbuf :: MeasurementsBuffer
  runErr :: "error option"
  elapsedTime :: int

text \<open>
  How a piece of the loop ends: the loop goes on (\<open>Running\<close>), \<open>ping\<close> returns an
  error, or the program panics. \<open>ping\<close> has no \<open>return nil\<close>.
\<close>

datatype outcome = Running | Returned error | Crashed panic

text \<open>
  Lines 153--162: the overlapped creation. \<open>runErr == nil && mbuf.CanAppend()\<close>
  short-circuits, so \<open>CanAppend\<close> is not called once \<open>runErr\<close> is set. On a failed
  creation \<open>hm\<close> is \<open>nil\<close> and is appended all the same.
\<close>

definition ping_append :: "Env \<Rightarrow> PingState \<Rightarrow> outcome \<times> PingState" where
  "ping_append env ps =
     (if runErr ps \<noteq> None then (Running, ps)
      else case CanAppend (heap (root ps)) (mbuf ps) of
             Inl p \<Rightarrow> (Crashed p, ps)
           | Inr c \<Rightarrow>
               if \<not> c then (Running, ps)
               else (case Last (History (ctx (root ps))) of
                       nil \<Rightarrow> (Crashed NilPointerDereference, ps)
                     | Ref l \<Rightarrow>
                         (let o1 = (opts ps)\<lparr>mcLocations := [\<lparr>Magic = Id (heap (root ps) l)\<rparr>]\<rparr>;
                              start = Now env (trace (root ps));
                              r1 = (root ps)\<lparr>trace := trace (root ps) @ [CallNow]\<rparr>
                          in case createMeasurement env o1 r1 of
                               (res, r2) \<Rightarrow>
                                 (let stop = Now env (trace r2);
                                      r3 = r2\<lparr>trace := trace r2 @ [CallNow]\<rparr>
                                  in (Running,
                                      ps\<lparr>root := r3, opts := o1,
                                         mbuf := Append (case res of Inl e \<Rightarrow> nil | Inr hm \<Rightarrow> hm) (mbuf ps),
                                         runErr := (case res of Inl e \<Rightarrow> Some e | Inr hm \<Rightarrow> None),
                                         elapsedTime := elapsedTime ps + (stop - start)\<rparr>)))))"

text \<open>
  Lines 129--163: the body of the inner loop for a non-nil \<open>el\<close> at address \<open>a\<close>,
  up to the final \<open>el = mbuf.Next()\<close>. The string \<open>statuses\<close> of lines 149--152 is
  never read and is left out.
\<close>

definition ping_body :: "Env \<Rightarrow> nat \<Rightarrow> PingState \<Rightarrow> outcome \<times> PingState" where
  "ping_body env a ps =
     (let r = root ps;
          r1 = r\<lparr>trace := trace r @ [CallGetMeasurement (Id (heap r a))]\<rparr>
      in case GetMeasurement env (trace r) (Id (heap r a)) of
           Inl msg \<Rightarrow> (Returned (GetMeasurementError msg), ps\<lparr>root := r1\<lparr>SilenceUsage := True\<rparr>\<rparr>)
         | Inr m \<Rightarrow>
             (let r2 = r1\<lparr>heap := (heap r1)(a := (heap r1 a)\<lparr>Status := mStatus m\<rparr>)\<rparr>
              in if Results m = [] then (Running, ps\<lparr>root := r2\<rparr>)
                 else (let r3 = r2\<lparr>trace := trace r2 @ [CallOutputInfinite m]\<rparr>
                       in case OutputInfinite env (trace r2) m of
                            Some msg \<Rightarrow>
                              (Returned (OutputInfiniteError msg),
                               ps\<lparr>root := r3\<lparr>SilenceUsage := True\<rparr>\<rparr>)
                          | None \<Rightarrow>
                              if mStatus m \<noteq> StatusInProgress then
                                (case Remove (Ref a) (mbuf ps) of
                                   Inl p \<Rightarrow> (Crashed p, ps\<lparr>root := r3\<rparr>)
                                 | Inr b \<Rightarrow> ping_append env (ps\<lparr>root := r3, mbuf := b\<rparr>))
                              else
                                ping_append env
                                  (ps\<lparr>root := r3\<lparr>heap := (heap r3)(a := (heap r3 a)
                                         \<lparr>IsPartiallyFinished := Root_IsPartiallyFinished m\<rparr>)\<rparr>\<rparr>))))"

text \<open>Lines 165--180: what follows a finished sweep.\<close>

definition ping_round_end :: "Env \<Rightarrow> PingState \<Rightarrow> outcome \<times> PingState" where
  "ping_round_end env ps =
     (if Len (mbuf ps) > 0 then
        (Running,
         ps\<lparr>root := (root ps)\<lparr>trace := trace (root ps) @
                       [CallSleep (APIMinInterval (ctx (root ps)) - elapsedTime ps)]\<rparr>\<rparr>)
      else case runErr ps of
             Some e \<Rightarrow> (Returned e, ps)
           | None \<Rightarrow>
               (let o1 = (case Last (History (ctx (root ps))) of
                            nil \<Rightarrow> opts ps
                          | Ref l \<Rightarrow> (opts ps)\<lparr>mcLocations := [\<lparr>Magic = Id (heap (root ps) l)\<rparr>]\<rparr>)
                in case createMeasurement env o1 (root ps) of
                     (Inl e, r1) \<Rightarrow> (Returned e, ps\<lparr>root := r1, opts := o1\<rparr>)
                   | (Inr hm, r1) \<Rightarrow>
                       (Running, ps\<lparr>root := r1, opts := o1, mbuf := Append hm (mbuf ps)\<rparr>)))"

text \<open>
  The two nested loops as one recursion. \<open>el\<close> is the loop variable of the inner loop:
  for a non-nil \<open>el\<close> a step runs the body and fetches the next element; for \<open>nil\<close>
  the sweep is over, and a step runs lines 165--180 and opens the next round
  (\<open>Restart\<close>, \<open>elapsedTime = 0\<close>, \<open>Next\<close>). The loops need not end, so the recursion
  counts steps: with no step left the outcome is \<open>Running\<close>, with the state reached.
\<close>

fun ping_loop :: "Env \<Rightarrow> nat \<Rightarrow> ptr \<Rightarrow> PingState \<Rightarrow> outcome \<times> PingState" where
  "ping_loop env 0 el ps = (Running, ps)"
| "ping_loop env (Suc n) (Ref a) ps =
     (case ping_body env a ps of
        (Running, ps1) \<Rightarrow>
          (case Next (mbuf ps1) of
             Inl p \<Rightarrow> (Crashed p, ps1)
           | Inr (el1, b1) \<Rightarrow> ping_loop env n el1 (ps1\<lparr>mbuf := b1\<rparr>))
      | (Returned e, ps1) \<Rightarrow> (Returned e, ps1)
      | (Crashed p, ps1) \<Rightarrow> (Crashed p, ps1))"
| "ping_loop env (Suc n) nil ps =
     (case ping_round_end env ps of
        (Running, ps1) \<Rightarrow>
          (case Next (Restart (mbuf ps1)) of
             Inl p \<Rightarrow> (Crashed p, ps1)
           | Inr (el1, b1) \<Rightarrow> ping_loop env n el1 (ps1\<lparr>mbuf := b1, elapsedTime := 0\<rparr>))
      | (Returned e, ps1) \<Rightarrow> (Returned e, ps1)
      | (Crashed p, ps1) \<Rightarrow> (Crashed p, ps1))"

text \<open>Lines 122--127: the entry of \<open>ping\<close>, up to the first test of the inner loop.\<close>

definition ping_init :: "MeasurementCreate \<Rightarrow> Root \<Rightarrow> MeasurementsBuffer \<Rightarrow> PingState" where
  "ping_init mc r b = \<lparr>root = r, opts = mc, mbuf = b, runErr = None, elapsedTime = 0\<rparr>"

definition ping :: "Env \<Rightarrow> nat \<Rightarrow> MeasurementCreate \<Rightarrow> Root \<Rightarrow> outcome \<times> PingState" where
  "ping env n mc r =
     (case NewMeasurementsBuffer 2 of
        Inl p \<Rightarrow> (Crashed p, ping_init mc r \<lparr>capacity = 2, items = [], pos = 0\<rparr>)
      | Inr b \<Rightarrow>
          (case Next (Restart b) of
             Inl p \<Rightarrow> (Crashed p, ping_init mc r b)
           | Inr (el, b1) \<Rightarrow> ping_loop env n el (ping_init mc r b1)))"

subsection \<open>\<open>pingInfinite\<close> (lines 97--119) and \<open>RunPing\<close> (lines 60--95)\<close>

text \<open>
  \<open>pingInfinite\<close> starts \<open>ping\<close> in a goroutine and waits for a signal: either the
  goroutine's own, sent when \<open>ping\<close> has returned an error, or the user's interrupt.
  The interleaving of the two goroutines is modelled by \<open>n\<close>, the number of loop steps
  that \<open>ping\<close> has completed when the interrupt is received (an interrupt is taken
  between two steps). If \<open>ping\<close> has returned by then, \<open>err\<close> holds its error; if it is
  still running, \<open>err\<close> is nil, the summary is written and nil is returned. The result
  is \<open>Inl p\<close> when the program panics, else \<open>Inr\<close> of the error returned (\<open>None\<close>
  for nil).
\<close>

definition pingInfinite :: "Env \<Rightarrow> nat \<Rightarrow> MeasurementCreate \<Rightarrow> Root \<Rightarrow> (panic + error option) \<times> Root" where
  "pingInfinite env n mc r =
     (if Limit (ctx r) > 5 then
        (Inr (Some (Errorf ''continous mode is currently limited to 5 probes'')), r)
      else case ping env n mc r of
             (Returned e, ps) \<Rightarrow> (Inr (Some e), root ps)
           | (Crashed p, ps) \<Rightarrow> (Inl p, root ps)
           | (Running, ps) \<Rightarrow>
               (Inr None, (root ps)\<lparr>trace := trace (root ps) @ [CallOutputSummary]\<rparr>))"

definition RunPing :: "Env \<Rightarrow> nat \<Rightarrow> string \<Rightarrow> string list \<Rightarrow> Root \<Rightarrow> (panic + error option) \<times> Root" where
  "RunPing env n cmd args r =
     (case updateContext env cmd args (ctx r) of
        (Some msg, c) \<Rightarrow> (Inr (Some (UpdateContextError msg)), r\<lparr>ctx := c\<rparr>)
      | (None, c) \<Rightarrow>
          (let c1 = c\<lparr>RecordToSession := True\<rparr>;
               c2 = (if Infinite c1 then c1\<lparr>Packets := 16\<rparr> else c1);
               mc = \<lparr>mcType = ''ping'', mcTarget = Target c2, mcLimit = Limit c2,
                    mcInProgressUpdates = (\<not> CIMode c2),
                    mcOptions = \<lparr>moPackets = Packets c2\<rparr>, mcLocations = []\<rparr>
           in case getLocations env (r\<lparr>ctx := c2\<rparr>) of
                (Inl msg, c3) \<Rightarrow>
                  (Inr (Some (GetLocationsError msg)), r\<lparr>ctx := c3, SilenceUsage := True\<rparr>)
              | (Inr locs, c3) \<Rightarrow>
                  (let o1 = mc\<lparr>mcLocations := locs\<rparr>;
                       r1 = r\<lparr>ctx := c3\<rparr>
                   in if Infinite c3 then pingInfinite env n o1 r1
                      else (case createMeasurement env o1 r1 of
                              (Inl e, r2) \<Rightarrow> (Inr (Some e), r2)
                            | (Inr nil, r2) \<Rightarrow> (Inl NilPointerDereference, r2)
                            | (Inr (Ref a), r2) \<Rightarrow>
                                (case Output env (trace r2) (Id (heap r2 a)) o1 of
                                   Some msg \<Rightarrow>
                                     (Inr (Some (OutputError msg)),
                                      r2\<lparr>trace := trace r2 @ [CallOutput (Id (heap r2 a)) o1]\<rparr>)
                                 | None \<Rightarrow>
                                     (Inr None,
                                      r2\<lparr>trace := trace r2 @ [CallOutput (Id (heap r2 a)) o1]\<rparr>))))))"

section \<open>Vocabulary of the properties\<close>

text \<open>
  A window is in order when its cursor is in range, it holds no handle twice and its
  capacity is not negative.
\<close>

definition window_ok :: "MeasurementsBuffer \<Rightarrow> bool" where
  "window_ok b \<longleftrightarrow>
     0 \<le> pos b \<and> pos b \<le> int (length (items b)) \<and> distinct (items b) \<and> 0 \<le> capacity b"

text \<open>
  \<open>same_request mc o1\<close>: the request \<open>o1\<close> differs from \<open>mc\<close> at most in its
  locations. \<open>ping\<close> rewrites \<open>opts.Locations\<close> and nothing else of \<open>opts\<close>.
\<close>

definition same_request :: "MeasurementCreate \<Rightarrow> MeasurementCreate \<Rightarrow> bool" where
  "same_request mc o1 \<longleftrightarrow>
     mcType o1 = mcType mc \<and> mcTarget o1 = mcTarget mc \<and> mcLimit o1 = mcLimit mc \<and>
     mcInProgressUpdates o1 = mcInProgressUpdates mc \<and> mcOptions o1 = mcOptions mc"

text \<open>The calls that \<open>ping\<close> may issue when started on the request \<open>mc\<close>.\<close>

fun ping_event :: "MeasurementCreate \<Rightarrow> event \<Rightarrow> bool" where
  "ping_event mc (CallCreateMeasurement o1) = same_request mc o1"
| "ping_event mc CallOutputSummary = False"
| "ping_event mc (CallOutput i o1) = False"
| "ping_event mc (CallGetMeasurement i) = True"
| "ping_event mc (CallOutputInfinite m) = True"
| "ping_event mc CallNow = True"
| "ping_event mc (CallSleep d) = True"
| "ping_event mc (CallPrintf s) = True"
| "ping_event mc (CallSaveIdToSession i) = True"

text \<open>The errors that come from the API client or the viewer during \<open>ping\<close>.\<close>

fun remote_error :: "error \<Rightarrow> bool" where
  "remote_error (CreateMeasurementError s) = True"
| "remote_error (GetMeasurementError s) = True"
| "remote_error (OutputInfiniteError s) = True"
| "remote_error (Errorf s) = False"
| "remote_error (OutputError s) = False"
| "remote_error (UpdateContextError s) = False"
| "remote_error (GetLocationsError s) = False"
| "remote_error (SaveIdToSessionError s) = False"

definition ping_inv :: "MeasurementCreate \<Rightarrow> PingState \<Rightarrow> bool" where
  "ping_inv mc ps \<longleftrightarrow>
     same_request mc (opts ps) \<and> (case runErr ps of None \<Rightarrow> True | Some e \<Rightarrow> remote_error e)"

definition trace_ext :: "MeasurementCreate \<Rightarrow> Root \<Rightarrow> Root \<Rightarrow> bool" where
  "trace_ext mc r r' \<longleftrightarrow> (\<exists>evs. trace r' = trace r @ evs \<and> list_all (ping_event mc) evs)"


text \<open>
  A run is blocked when an error of a creation is pending and a \<open>nil\<close> handle sits
  in the window. \<open>A\<close> bounds the addresses of the items in front of that handle and
  \<open>ids\<close> gives the id of the item at each address; during a sweep the cursor is not
  past the \<open>nil\<close> handle.
\<close>

definition blocked :: "nat set \<Rightarrow> (nat \<Rightarrow> string) \<Rightarrow> bool \<Rightarrow> PingState \<Rightarrow> bool" where
  "blocked A ids sweeping ps \<longleftrightarrow>
     runErr ps \<noteq> None \<and> 0 \<le> capacity (mbuf ps) \<and> distinct (items (mbuf ps)) \<and>
     (\<exists>xs ys. items (mbuf ps) = xs @ nil # ys \<and> set xs \<subseteq> Ref ` A \<and>
        (sweeping \<longrightarrow> 0 \<le> pos (mbuf ps) \<and> pos (mbuf ps) \<le> int (length xs))) \<and>
     (\<forall>a. Id (heap (root ps) a) = ids a)"


text \<open>
  The windows that \<open>ping\<close> builds: in order, of capacity 2 and never fuller, holding
  only handles of items already allocated, and no \<open>nil\<close> handle unless an error is
  pending.
\<close>

definition engine_ok :: "PingState \<Rightarrow> bool" where
  "engine_ok ps \<longleftrightarrow>
     window_ok (mbuf ps) \<and> capacity (mbuf ps) = 2 \<and> length (items (mbuf ps)) \<le> 2 \<and>
     list_all (\<lambda>x. case x of nil \<Rightarrow> runErr ps \<noteq> None | Ref a \<Rightarrow> a < next_addr (root ps))
       (items (mbuf ps))"

text \<open>
  \<open>at_most_one_line r r'\<close>: from \<open>r\<close> to \<open>r'\<close> the session record is unchanged, or
  it has grown by one line and \<open>RecordToSession\<close> is cleared.
\<close>

definition at_most_one_line :: "Root \<Rightarrow> Root \<Rightarrow> bool" where
  "at_most_one_line r r' \<longleftrightarrow>
     session r' = session r \<or>
     (\<exists>i. session r' = session r @ [i] \<and> \<not> RecordToSession (ctx r'))"

section \<open>Concrete runs\<close>

definition count_creates :: "event list \<Rightarrow> nat" where
  "count_creates tr =
     length (filter (\<lambda>e. case e of CallCreateMeasurement x \<Rightarrow> True | _ \<Rightarrow> False) tr)"

definition probe :: "MeasurementStatus \<Rightarrow> ProbeMeasurement" where
  "probe st = \<lparr>Result = \<lparr>prStatus = st\<rparr>\<rparr>"

text \<open>An in-progress measurement of two probes, the first of which has finished.\<close>

definition partial_measurement :: "string \<Rightarrow> Measurement" where
  "partial_measurement i =
     \<lparr>mID = i, mStatus = StatusInProgress,
      Results = [probe StatusFinished, probe StatusInProgress]\<rparr>"

text \<open>
  A service that names its measurements \<open>m1\<close>, \<open>m2\<close>, \<open>m2\<close>, \dots, reports \<open>m1\<close> as
  partially finished, and fails every other poll.
\<close>

definition env_poll_fails :: Env where
  "env_poll_fails =
     \<lparr>CreateMeasurement = (\<lambda>tr mc. Inr \<lparr>ID = (if count_creates tr = 0 then ''m1'' else ''m2'')\<rparr>),
      GetMeasurement = (\<lambda>tr i. if i = ''m1'' then Inr (partial_measurement i) else Inl ''boom''),
      OutputInfinite = (\<lambda>tr m. None),
      Output = (\<lambda>tr i mc. None),
      Now = (\<lambda>tr. int (length tr)),
      saveFault = (\<lambda>tr i. None),
      updateContext = (\<lambda>cmd args c. (None, c)),
      getLocations = (\<lambda>r. (Inr [\<lparr>Magic = ''Berlin''\<rparr>], ctx r))\<rparr>"

text \<open>A service that reports every measurement as in progress, with no results yet.\<close>

definition env_empty_progress :: Env where
  "env_empty_progress =
     env_poll_fails\<lparr>GetMeasurement :=
       (\<lambda>tr i. Inr \<lparr>mID = i, mStatus = StatusInProgress, Results = []\<rparr>)\<rparr>"

text \<open>The same service with a viewer that fails on every incremental output.\<close>

definition env_render_fails :: Env where
  "env_render_fails = env_poll_fails\<lparr>OutputInfinite := (\<lambda>tr m. Some ''broken pipe'')\<rparr>"

text \<open>A service that reports every measurement as finished, with no results.\<close>

definition env_empty_finished :: Env where
  "env_empty_finished =
     env_poll_fails\<lparr>GetMeasurement :=
       (\<lambda>tr i. Inr \<lparr>mID = i, mStatus = StatusFinished, Results = []\<rparr>)\<rparr>"


definition ctx0 :: Context where
  "ctx0 = \<lparr>Target = ''jsdelivr.com'', Limit = 1, CIMode = False, Packets = 3, Infinite = True,
           RecordToSession = False, MeasurementsCreated = 0, History = NewHistoryBuffer 10,
           APIMinInterval = 500\<rparr>"

definition item0 :: HistoryItem where
  "item0 = \<lparr>Id = [], Status = StatusInProgress, StartedAt = 0, IsPartiallyFinished = False\<rparr>"

definition root0 :: Root where
  "root0 = \<lparr>ctx = ctx0, SilenceUsage = False, heap = (\<lambda>a. item0), next_addr = 0,
            trace = [], session = []\<rparr>"

definition mc0 :: MeasurementCreate where
  "mc0 = \<lparr>mcType = ''ping'', mcTarget = ''jsdelivr.com'', mcLimit = 1,
          mcInProgressUpdates = True, mcOptions = \<lparr>moPackets = 16\<rparr>,
          mcLocations = [\<lparr>Magic = ''Berlin''\<rparr>]\<rparr>"

definition store_flagged :: store where
  "store_flagged = (\<lambda>a. item0\<lparr>IsPartiallyFinished := True\<rparr>)"

definition window_one :: MeasurementsBuffer where
  "window_one = \<lparr>capacity = 2, items = [Ref 0], pos = 1\<rparr>"

definition window_two :: MeasurementsBuffer where
  "window_two = \<lparr>capacity = 2, items = [Ref 0, Ref 1], pos = 1\<rparr>"

definition window_new :: MeasurementsBuffer where
  "window_new = \<lparr>capacity = 2, items = [], pos = 0\<rparr>"

definition root_limit6 :: Root where
  "root_limit6 = root0\<lparr>ctx := ctx0\<lparr>Limit := 6\<rparr>\<rparr>"

definition root_oneshot :: Root where
  "root_oneshot = root0\<lparr>ctx := ctx0\<lparr>Infinite := False\<rparr>\<rparr>"


text \<open>The packets of the creations in a trace, in order.\<close>

fun created_packets :: "event list \<Rightarrow> int list" where
  "created_packets [] = []"
| "created_packets (CallCreateMeasurement mc # es) = moPackets (mcOptions mc) # created_packets es"
| "created_packets (e # es) = created_packets es"

section \<open>The measurements buffer\<close>

subsection \<open>\<open>CanAppend\<close>\<close>

lemma CanAppend_loop_no_nil:
  "nil \<notin> set xs \<Longrightarrow>
   CanAppend_loop h xs = Inr (\<exists>a. Ref a \<in> set xs \<and> IsPartiallyFinished (h a))"
proof (induction xs)
  case Nil
  then show ?case by simp
next
  case (Cons x xs)
  then show ?case by (cases x) auto
qed

lemma CanAppend_loop_True:
  "CanAppend_loop h xs = Inr True \<Longrightarrow> \<exists>a. Ref a \<in> set xs \<and> IsPartiallyFinished (h a)"
proof (induction xs)
  case Nil
  then show ?case by simp
next
  case (Cons x xs)
  then show ?case by (cases x) (auto split: if_splits)
qed

lemma CanAppend_small:
  assumes "capacity b \<le> 2"
  shows "CanAppend h b = Inr True \<longleftrightarrow>
           int (length (items b)) < capacity b \<and>
           (\<exists>a. Ref a \<in> set (items b) \<and> IsPartiallyFinished (h a))"
proof (cases "int (length (items b)) < capacity b")
  case False
  then show ?thesis by (simp add: CanAppend_def)
next
  case True
  with assms have "length (items b) \<le> 1" by linarith
  then consider "items b = []" | x where "items b = [x]"
    by (cases "items b") (auto simp: Suc_le_eq)
  then show ?thesis
  proof cases
    case 1
    with True show ?thesis by (simp add: CanAppend_def)
  next
    case 2
    with True show ?thesis by (cases x) (auto simp: CanAppend_def)
  qed
qed

text \<open>
  Claim C4. \<open>CanAppend\<close> answers true exactly when the occupancy is strictly below the
  capacity and at least one held item has its partially-finished flag set; on a window
  whose occupancy has reached the capacity it answers false whatever the flags. Reading
  the flag through a \<open>nil\<close> handle panics, so the answer is characterised in full for
  the windows whose handles are all non-nil; the equivalence for the answer true holds
  besides on every window of capacity at most 2 (the capacity \<open>ping\<close> uses), \<open>nil\<close>
  handles or not; the answer true always implies both conditions; and the answer on a
  full window needs no condition at all.
\<close>

theorem CanAppend_iff:
  "(nil \<notin> set (items b) \<longrightarrow>
      CanAppend h b = Inr (int (length (items b)) < capacity b \<and>
                            (\<exists>a. Ref a \<in> set (items b) \<and> IsPartiallyFinished (h a)))) \<and>
   (capacity b \<le> 2 \<longrightarrow>
      (CanAppend h b = Inr True \<longleftrightarrow>
         int (length (items b)) < capacity b \<and>
         (\<exists>a. Ref a \<in> set (items b) \<and> IsPartiallyFinished (h a)))) \<and>
   (CanAppend h b = Inr True \<longrightarrow>
      int (length (items b)) < capacity b \<and>
      (\<exists>a. Ref a \<in> set (items b) \<and> IsPartiallyFinished (h a))) \<and>
   (capacity b \<le> int (length (items b)) \<longrightarrow> CanAppend h b = Inr False)"
  using CanAppend_loop_True [of h "items b"] CanAppend_small [of b h]
  by (auto simp: CanAppend_def CanAppend_loop_no_nil)

theorem CanAppend_iff_witness:
  "nil \<notin> set (items window_one) \<and> capacity window_one \<le> 2 \<and>
   CanAppend store_flagged window_one = Inr True \<and>
   int (length (items window_one)) < capacity window_one \<and>
   (\<exists>a. Ref a \<in> set (items window_one) \<and> IsPartiallyFinished (store_flagged a)) \<and>
   capacity window_two \<le> int (length (items window_two)) \<and>
   CanAppend store_flagged window_two = Inr False"
  using CanAppend_iff [of window_one store_flagged] CanAppend_iff [of window_two store_flagged]
  by (simp add: window_one_def window_two_def store_flagged_def)

subsection \<open>\<open>Remove\<close> and \<open>Next\<close>\<close>

lemma Remove_loop_absent:
  "el \<notin> set xs \<Longrightarrow> Remove_loop el i xs (newb, p) = (newb @ xs, p)"
  by (induction xs arbitrary: i newb) auto

text \<open>
  On a list without duplicates the loop of \<open>Remove\<close> filters the handle out and
  decrements the cursor once if the handle sits in front of it.
\<close>

lemma Remove_loop_distinct:
  "distinct xs \<Longrightarrow>
   Remove_loop el i xs (newb, p) =
     (newb @ filter (\<lambda>x. x \<noteq> el) xs,
      if (\<exists>j<length xs. xs ! j = el \<and> int (i + j) < p) then p - 1 else p)"
proof (induction xs arbitrary: i newb)
  case Nil
  then show ?case by simp
next
  case (Cons x xs)
  show ?case
  proof (cases "x = el")
    case True
    with Cons.prems have notin: "el \<notin> set xs" by simp
    then have f: "filter (\<lambda>x. x \<noteq> el) xs = xs" by (induction xs) auto
    have ex: "(\<exists>j<length (x # xs). (x # xs) ! j = el \<and> int (i + j) < p) \<longleftrightarrow> int i < p"
    proof
      assume "\<exists>j<length (x # xs). (x # xs) ! j = el \<and> int (i + j) < p"
      then obtain j where j: "j < length (x # xs)" "(x # xs) ! j = el" "int (i + j) < p" by blast
      then show "int i < p" by linarith
    next
      assume "int i < p"
      then show "\<exists>j<length (x # xs). (x # xs) ! j = el \<and> int (i + j) < p"
        using True by (intro exI[of _ 0]) simp
    qed
    show ?thesis using True notin f ex by (simp add: Remove_loop_absent)
  next
    case False
    have ex: "(\<exists>j<length (x # xs). (x # xs) ! j = el \<and> int (i + j) < p) \<longleftrightarrow>
              (\<exists>j<length xs. xs ! j = el \<and> int (Suc i + j) < p)"
    proof
      assume "\<exists>j<length (x # xs). (x # xs) ! j = el \<and> int (i + j) < p"
      then obtain j where j: "j < length (x # xs)" "(x # xs) ! j = el" "int (i + j) < p" by blast
      with False obtain k where "j = Suc k" by (cases j) auto
      with j show "\<exists>j<length xs. xs ! j = el \<and> int (Suc i + j) < p"
        by (intro exI[of _ k]) simp
    next
      assume "\<exists>j<length xs. xs ! j = el \<and> int (Suc i + j) < p"
      then obtain k where "k < length xs" "xs ! k = el" "int (Suc i + k) < p" by blast
      then show "\<exists>j<length (x # xs). (x # xs) ! j = el \<and> int (i + j) < p"
        by (intro exI[of _ "Suc k"]) simp
    qed
    from Cons.prems have "distinct xs" by simp
    from Cons.IH [OF this, of "Suc i" "newb @ [x]"] False ex show ?thesis by simp
  qed
qed

lemma length_filter_distinct_add:
  "distinct ys \<Longrightarrow>
   length (filter (\<lambda>x. x \<noteq> el) ys) + (if el \<in> set ys then 1 else 0) = length ys"
  by (induction ys) auto

lemma length_filter_distinct:
  "distinct ys \<Longrightarrow>
   length (filter (\<lambda>x. x \<noteq> el) ys) = (if el \<in> set ys then length ys - 1 else length ys)"
  using length_filter_distinct_add [of ys el] by (simp split: if_splits)

lemma Remove_distinct:
  assumes "distinct (items b)" "0 \<le> capacity b"
  shows "Remove el b =
           Inr (b\<lparr>items := filter (\<lambda>x. x \<noteq> el) (items b),
                  pos := (if \<exists>j<length (items b). items b ! j = el \<and> int j < pos b
                          then pos b - 1 else pos b)\<rparr>)"
proof (cases "items b = []")
  case True
  then show ?thesis by (simp add: Remove_def)
next
  case False
  with assms show ?thesis
    by (simp add: Remove_def Remove_loop_distinct)
qed

lemma before_cursor_iff:
  assumes "0 \<le> p" "p \<le> int (length xs)"
  shows "(\<exists>j<length xs. xs ! j = el \<and> int j < p) \<longleftrightarrow> el \<in> set (take (nat p) xs)"
proof
  assume "\<exists>j<length xs. xs ! j = el \<and> int j < p"
  then obtain j where "j < length xs" "xs ! j = el" "int j < p" by blast
  then have "j < length (take (nat p) xs)" "take (nat p) xs ! j = el" by simp_all
  then show "el \<in> set (take (nat p) xs)" by (metis nth_mem)
next
  assume "el \<in> set (take (nat p) xs)"
  then obtain j where j: "j < length (take (nat p) xs)" "take (nat p) xs ! j = el"
    by (auto simp: in_set_conv_nth)
  then have "j < length xs" "xs ! j = el" "int j < p" using assms by auto
  then show "\<exists>j<length xs. xs ! j = el \<and> int j < p" by blast
qed

lemma drop_filter_cursor:
  assumes "0 \<le> p" "p \<le> int (length xs)" "distinct xs"
  shows "drop (nat (if el \<in> set (take (nat p) xs) then p - 1 else p)) (filter (\<lambda>x. x \<noteq> el) xs) =
         filter (\<lambda>x. x \<noteq> el) (drop (nat p) xs)"
proof -
  let ?P = "\<lambda>x. x \<noteq> el"
  have d: "distinct (take (nat p) xs)" using assms(3) by simp
  have np: "nat p \<le> length xs" using assms(1,2) by linarith
  then have lt: "length (take (nat p) xs) = nat p" by simp
  have len: "length (filter ?P (take (nat p) xs)) =
             nat (if el \<in> set (take (nat p) xs) then p - 1 else p)"
  proof (cases "el \<in> set (take (nat p) xs)")
    case True
    then have "take (nat p) xs \<noteq> []" by auto
    then have "0 < p" using assms by auto
    then have "nat (p - 1) = nat p - 1" by linarith
    with True show ?thesis
      using length_filter_distinct [OF d, of el] lt by simp
  next
    case False
    then show ?thesis
      using length_filter_distinct [OF d, of el] lt by simp
  qed
  have "filter ?P xs = filter ?P (take (nat p) xs) @ filter ?P (drop (nat p) xs)"
    by (metis append_take_drop_id filter_append)
  then show ?thesis using len by (metis append_eq_conv_conj)
qed

lemma Remove_cursor_bounds:
  assumes "0 \<le> p" "p \<le> int (length xs)" "distinct xs"
  shows "0 \<le> (if \<exists>j<length xs. xs ! j = el \<and> int j < p then p - 1 else p) \<and>
         (if \<exists>j<length xs. xs ! j = el \<and> int j < p then p - 1 else p)
           \<le> int (length (filter (\<lambda>x. x \<noteq> el) xs))"
proof (cases "\<exists>j<length xs. xs ! j = el \<and> int j < p")
  case True
  then obtain j where j: "j < length xs" "xs ! j = el" "int j < p" by blast
  then have "el \<in> set xs" by (metis nth_mem)
  with assms(3) have "length (filter (\<lambda>x. x \<noteq> el) xs) = length xs - 1"
    by (simp add: length_filter_distinct)
  with True j assms show ?thesis by auto
next
  case False
  show ?thesis
  proof (cases "el \<in> set xs")
    case True
    then obtain k where k: "k < length xs" "xs ! k = el" by (auto simp: in_set_conv_nth)
    with False have "p \<le> int k" by force
    moreover from True assms(3) have "length (filter (\<lambda>x. x \<noteq> el) xs) = length xs - 1"
      by (simp add: length_filter_distinct)
    ultimately show ?thesis using False k assms(1) by auto
  next
    case notin: False
    with assms(3) have "length (filter (\<lambda>x. x \<noteq> el) xs) = length xs"
      by (simp add: length_filter_distinct)
    with False assms show ?thesis by auto
  qed
qed

text \<open>With the cursor in range, \<open>n\<close> calls of \<open>Next\<close> return the next \<open>n\<close> handles.\<close>

lemma Nexts_in_range:
  "0 \<le> pos b \<Longrightarrow> pos b + int n \<le> int (length (items b)) \<Longrightarrow>
   Nexts n b = Inr (take n (drop (nat (pos b)) (items b)), b\<lparr>pos := pos b + int n\<rparr>)"
proof (induction n arbitrary: b)
  case 0
  then show ?case by simp
next
  case (Suc n)
  let ?b1 = "b\<lparr>pos := pos b + 1\<rparr>"
  from Suc.prems have nx: "Next b = Inr (items b ! nat (pos b), ?b1)"
    by (simp add: Next_def)
  from Suc.prems have "0 \<le> pos ?b1" "pos ?b1 + int n \<le> int (length (items ?b1))" by simp_all
  from Suc.IH [OF this]
  have ih: "Nexts n ?b1 =
            Inr (take n (drop (nat (pos b + 1)) (items b)), b\<lparr>pos := pos b + 1 + int n\<rparr>)"
    by simp
  from Suc.prems have lt: "nat (pos b) < length (items b)" by linarith
  have "take (Suc n) (drop (nat (pos b)) (items b)) =
        items b ! nat (pos b) # take n (drop (Suc (nat (pos b))) (items b))"
    using lt by (simp add: Cons_nth_drop_Suc [symmetric])
  moreover have "Suc (nat (pos b)) = nat (pos b + 1)" using Suc.prems by linarith
  ultimately show ?case using nx ih by (simp add: add.assoc add.commute)
qed

text \<open>Whatever the window, the loop of \<open>Remove\<close> keeps exactly the other handles.\<close>

lemma Remove_loop_items:
  "fst (Remove_loop el i xs (newb, p)) = newb @ filter (\<lambda>x. x \<noteq> el) xs"
  by (induction xs arbitrary: i newb p) auto

lemma Remove_items:
  assumes "0 \<le> capacity b"
  shows "\<exists>b'. Remove el b = Inr b' \<and> items b' = filter (\<lambda>x. x \<noteq> el) (items b) \<and>
              capacity b' = capacity b"
proof (cases "items b = []")
  case True
  then show ?thesis by (simp add: Remove_def)
next
  case False
  obtain newb p where rl: "Remove_loop el 0 (items b) ([], pos b) = (newb, p)" by fastforce
  with Remove_loop_items [of el 0 "items b" "[]" "pos b"]
  have "newb = filter (\<lambda>x. x \<noteq> el) (items b)" by simp
  with False assms rl show ?thesis by (simp add: Remove_def)
qed

text \<open>
  Claim C5. \<open>Remove\<close> deletes its argument by identity: the window keeps exactly the
  handles different from it, in order. On a window with its cursor in range that holds
  each handle once, \<open>Remove\<close> of a held handle moreover decrements the cursor by exactly
  one when the handle sits strictly before the cursor (and leaves it otherwise), and the
  calls of \<open>Next\<close> that follow return exactly the handles that had not been visited
  and were not removed, in order, and then \<open>nil\<close>.
\<close>

theorem Remove_keeps_sweep:
  "(0 \<le> capacity b \<longrightarrow>
      (\<exists>b'. Remove el b = Inr b' \<and> items b' = filter (\<lambda>x. x \<noteq> el) (items b) \<and>
            capacity b' = capacity b)) \<and>
   (0 \<le> pos b \<and> pos b \<le> int (length (items b)) \<and> distinct (items b) \<and>
    0 \<le> capacity b \<and> el \<in> set (items b) \<longrightarrow>
      (\<exists>b'. Remove el b = Inr b' \<and>
           items b' = filter (\<lambda>x. x \<noteq> el) (items b) \<and>
           length (items b') = length (items b) - 1 \<and>
           pos b' = (if \<exists>j<length (items b). items b ! j = el \<and> int j < pos b
                     then pos b - 1 else pos b) \<and>
           0 \<le> pos b' \<and> pos b' \<le> int (length (items b')) \<and>
           Nexts (length (items b') - nat (pos b')) b' =
             Inr (filter (\<lambda>x. x \<noteq> el) (drop (nat (pos b)) (items b)),
                  b'\<lparr>pos := int (length (items b'))\<rparr>) \<and>
           Next (b'\<lparr>pos := int (length (items b'))\<rparr>) =
             Inr (nil, b'\<lparr>pos := int (length (items b'))\<rparr>)))"
proof (rule conjI; rule impI)
  assume "0 \<le> capacity b"
  then show "\<exists>b'. Remove el b = Inr b' \<and> items b' = filter (\<lambda>x. x \<noteq> el) (items b) \<and>
            capacity b' = capacity b"
    by (rule Remove_items)
next
  assume asm: "0 \<le> pos b \<and> pos b \<le> int (length (items b)) \<and> distinct (items b) \<and>
    0 \<le> capacity b \<and> el \<in> set (items b)"
  then have a1: "0 \<le> pos b" and a2: "pos b \<le> int (length (items b))"
    and a3: "distinct (items b)" and a4: "0 \<le> capacity b" and a5: "el \<in> set (items b)"
    by simp_all
  let ?P = "\<lambda>x. x \<noteq> el"
  let ?before = "\<exists>j<length (items b). items b ! j = el \<and> int j < pos b"
  let ?p = "if ?before then pos b - 1 else pos b"
  let ?b' = "b\<lparr>items := filter ?P (items b), pos := ?p\<rparr>"
  have rem: "Remove el b = Inr ?b'"
    using a3 a4 by (rule Remove_distinct)
  have len: "length (filter ?P (items b)) = length (items b) - 1"
    using a3 a5 by (simp add: length_filter_distinct)
  have bef: "?before \<longleftrightarrow> el \<in> set (take (nat (pos b)) (items b))"
    using a1 a2 by (rule before_cursor_iff)
  have lo: "0 \<le> ?p" and hi: "?p \<le> int (length (filter ?P (items b)))"
    using Remove_cursor_bounds [OF a1 a2 a3, of el] by simp_all
  have dr: "drop (nat ?p) (filter ?P (items b)) = filter ?P (drop (nat (pos b)) (items b))"
    using drop_filter_cursor [OF a1 a2 a3, of el] bef by simp
  have "0 \<le> pos ?b'"
    "pos ?b' + int (length (items ?b') - nat (pos ?b')) \<le> int (length (items ?b'))"
    using lo hi by auto
  from Nexts_in_range [OF this]
  have nx0: "Nexts (length (items ?b') - nat (pos ?b')) ?b' =
            Inr (take (length (items ?b') - nat (pos ?b')) (drop (nat (pos ?b')) (items ?b')),
                 ?b'\<lparr>pos := pos ?b' + int (length (items ?b') - nat (pos ?b'))\<rparr>)" .
  have tk: "take (length (items ?b') - nat (pos ?b')) (drop (nat (pos ?b')) (items ?b')) =
            drop (nat (pos ?b')) (items ?b')"
    by simp
  have pe: "pos ?b' + int (length (items ?b') - nat (pos ?b')) = int (length (items ?b'))"
    using lo hi by auto
  have nx: "Nexts (length (items ?b') - nat (pos ?b')) ?b' =
            Inr (filter ?P (drop (nat (pos b)) (items b)),
                 ?b'\<lparr>pos := int (length (items ?b'))\<rparr>)"
    unfolding nx0 tk pe using dr by simp
  have fin: "Next (?b'\<lparr>pos := int (length (items ?b'))\<rparr>) =
             Inr (nil, ?b'\<lparr>pos := int (length (items ?b'))\<rparr>)"
    by (simp add: Next_def)
  show "\<exists>b'. Remove el b = Inr b' \<and>
           items b' = filter (\<lambda>x. x \<noteq> el) (items b) \<and>
           length (items b') = length (items b) - 1 \<and>
           pos b' = (if \<exists>j<length (items b). items b ! j = el \<and> int j < pos b
                     then pos b - 1 else pos b) \<and>
           0 \<le> pos b' \<and> pos b' \<le> int (length (items b')) \<and>
           Nexts (length (items b') - nat (pos b')) b' =
             Inr (filter (\<lambda>x. x \<noteq> el) (drop (nat (pos b)) (items b)),
                  b'\<lparr>pos := int (length (items b'))\<rparr>) \<and>
           Next (b'\<lparr>pos := int (length (items b'))\<rparr>) =
             Inr (nil, b'\<lparr>pos := int (length (items b'))\<rparr>)"
    apply (rule exI [of _ ?b'])
    using rem len lo hi nx fin by simp
qed

theorem Remove_keeps_sweep_witness:
  "0 \<le> pos window_two \<and> pos window_two \<le> int (length (items window_two)) \<and>
   distinct (items window_two) \<and> 0 \<le> capacity window_two \<and>
   Ref 0 \<in> set (items window_two) \<and>
   Remove (Ref 0) window_two = Inr \<lparr>capacity = 2, items = [Ref 1], pos = 0\<rparr> \<and>
   Nexts 1 \<lparr>capacity = 2, items = [Ref 1], pos = 0\<rparr> =
     Inr ([Ref 1], \<lparr>capacity = 2, items = [Ref 1], pos = 1\<rparr>)"
proof -
  have h: "0 \<le> pos window_two \<and> pos window_two \<le> int (length (items window_two)) \<and>
    distinct (items window_two) \<and> 0 \<le> capacity window_two \<and>
    Ref 0 \<in> set (items window_two)"
    by (simp add: window_two_def)
  from Remove_keeps_sweep [of window_two "Ref 0"] h obtain b' where
    b': "Remove (Ref 0) window_two = Inr b'"
        "Nexts (length (items b') - nat (pos b')) b' =
           Inr (filter (\<lambda>x. x \<noteq> Ref 0) (drop (nat (pos window_two)) (items window_two)),
                b'\<lparr>pos := int (length (items b'))\<rparr>)"
    by blast
  have r: "Remove (Ref 0) window_two = Inr \<lparr>capacity = 2, items = [Ref 1], pos = 0\<rparr>"
    by (simp add: Remove_def window_two_def)
  with b'(1) have "b' = \<lparr>capacity = 2, items = [Ref 1], pos = 0\<rparr>" by simp
  with b'(2) have "Nexts 1 \<lparr>capacity = 2, items = [Ref 1], pos = 0\<rparr> =
     Inr ([Ref 1], \<lparr>capacity = 2, items = [Ref 1], pos = 1\<rparr>)"
    by (simp add: window_two_def)
  with h r show ?thesis by simp
qed

subsection \<open>Sequences of calls\<close>

lemma Remove_window_ok:
  assumes "window_ok b"
  shows "\<exists>b'. Remove el b = Inr b' \<and> window_ok b' \<and> capacity b' = capacity b \<and>
              length (items b') \<le> length (items b)"
proof -
  from assms have a: "0 \<le> pos b" "pos b \<le> int (length (items b))" "distinct (items b)"
    "0 \<le> capacity b" by (auto simp: window_ok_def)
  from Remove_cursor_bounds [OF a(1,2,3), of el] Remove_distinct [OF a(3,4), of el] a
  show ?thesis by (auto simp: window_ok_def)
qed

lemma apply_op_window_ok:
  assumes "window_ok b" and "\<And>hm. x = OpAppend hm \<Longrightarrow> hm \<notin> set (items b)"
  shows "\<exists>b'. apply_op x b = Inr b' \<and> window_ok b' \<and> capacity b' = capacity b \<and>
              ((case x of OpAppend hm \<Rightarrow> int (length (items b)) < capacity b | _ \<Rightarrow> True) \<longrightarrow>
               int (length (items b)) \<le> capacity b \<longrightarrow> int (length (items b')) \<le> capacity b')"
proof (cases x)
  case OpRestart
  with assms show ?thesis by (auto simp: window_ok_def Restart_def)
next
  case OpNext
  with assms show ?thesis by (auto simp: window_ok_def Next_def)
next
  case (OpAppend hm)
  with assms show ?thesis by (auto simp: window_ok_def Append_def)
next
  case (OpRemove el)
  with Remove_window_ok [OF assms(1), of el] show ?thesis by auto
qed

lemma run_ops_window_ok:
  "window_ok b \<Longrightarrow> fresh_appends ops b \<Longrightarrow>
   \<exists>b'. run_ops ops b = Inr b' \<and> window_ok b' \<and> capacity b' = capacity b \<and>
        (guarded ops b \<longrightarrow> int (length (items b)) \<le> capacity b \<longrightarrow>
           int (length (items b')) \<le> capacity b')"
proof (induction ops arbitrary: b)
  case Nil
  then show ?case by simp
next
  case (Cons x xs)
  from Cons.prems(2) have fr: "\<And>hm. x = OpAppend hm \<Longrightarrow> hm \<notin> set (items b)" by auto
  from apply_op_window_ok [OF Cons.prems(1) fr]
  obtain b1 where b1: "apply_op x b = Inr b1" "window_ok b1" "capacity b1 = capacity b"
    "(case x of OpAppend hm \<Rightarrow> int (length (items b)) < capacity b | _ \<Rightarrow> True) \<longrightarrow>
               int (length (items b)) \<le> capacity b \<longrightarrow> int (length (items b1)) \<le> capacity b1"
    by blast
  from Cons.prems(2) b1(1) have "fresh_appends xs b1" by simp
  from Cons.IH [OF b1(2) this] obtain b' where b': "run_ops xs b1 = Inr b'" "window_ok b'"
    "capacity b' = capacity b1"
    "guarded xs b1 \<longrightarrow> int (length (items b1)) \<le> capacity b1 \<longrightarrow>
       int (length (items b')) \<le> capacity b'"
    by blast
  show ?case
    apply (rule exI [of _ b'])
    using b1 b' by auto
qed

text \<open>
  Claim C6, as amended. \<open>Append\<close> adds its argument whatever the occupancy, so the
  bounds are those of a caller that keeps to the protocol. From a fresh window, a
  sequence of \<open>Restart\<close>, \<open>Next\<close>, \<open>Append\<close> and \<open>Remove\<close> calls that never appends a
  handle the window already holds runs without a panic and leaves the cursor in
  \<open>[0, len(items)]\<close> and the capacity as constructed; if moreover each append is
  issued while \<open>len(items) < capacity\<close>, the occupancy never exceeds the capacity.
\<close>

theorem window_invariant:
  assumes "NewMeasurementsBuffer c = Inr b0" and "fresh_appends ops b0"
  shows "\<exists>b. run_ops ops b0 = Inr b \<and> capacity b = c \<and>
             0 \<le> pos b \<and> pos b \<le> int (length (items b)) \<and>
             (guarded ops b0 \<longrightarrow> int (length (items b)) \<le> capacity b)"
proof -
  from assms(1) have b0: "b0 = \<lparr>capacity = c, items = [], pos = 0\<rparr>" "0 \<le> c"
    by (auto simp: NewMeasurementsBuffer_def split: if_splits)
  then have ok: "window_ok b0" by (simp add: window_ok_def)
  from run_ops_window_ok [OF ok assms(2)] b0 show ?thesis
    by (auto simp: window_ok_def)
qed

theorem window_invariant_witness:
  "NewMeasurementsBuffer 2 = Inr window_new \<and>
   fresh_appends [OpAppend (Ref 0), OpNext, OpAppend (Ref 1), OpRemove (Ref 0), OpNext] window_new \<and>
   guarded [OpAppend (Ref 0), OpNext, OpAppend (Ref 1), OpRemove (Ref 0), OpNext] window_new \<and>
   run_ops [OpAppend (Ref 0), OpNext, OpAppend (Ref 1), OpRemove (Ref 0), OpNext] window_new =
     Inr \<lparr>capacity = 2, items = [Ref 1], pos = 1\<rparr>"
proof -
  let ?ops = "[OpAppend (Ref 0), OpNext, OpAppend (Ref 1), OpRemove (Ref 0), OpNext]"
  have h1: "NewMeasurementsBuffer 2 = Inr window_new"
    by (simp add: NewMeasurementsBuffer_def window_new_def)
  have h2: "fresh_appends ?ops window_new"
    by (simp add: window_new_def Append_def Next_def Remove_def)
  have g: "guarded ?ops window_new"
    by (simp add: window_new_def Append_def Next_def Remove_def)
  have r: "run_ops ?ops window_new = Inr \<lparr>capacity = 2, items = [Ref 1], pos = 1\<rparr>"
    by (simp add: window_new_def Append_def Next_def Remove_def)
  from window_invariant [OF h1 h2] g r h1 h2 show ?thesis by simp
qed

text \<open>
  Three appends on a fresh window of capacity two leave three items in it; and two
  appends of the same handle, two calls of \<open>Next\<close> and the removal of the handle leave
  the cursor at 1 in an empty window.
\<close>

theorem window_invariant_counterexample:
  "NewMeasurementsBuffer 2 = Inr window_new \<and>
   run_ops [OpAppend (Ref 0), OpAppend (Ref 1), OpAppend (Ref 2)] window_new =
     Inr \<lparr>capacity = 2, items = [Ref 0, Ref 1, Ref 2], pos = 0\<rparr> \<and>
   run_ops [OpAppend (Ref 0), OpAppend (Ref 0), OpNext, OpNext, OpRemove (Ref 0)] window_new =
     Inr \<lparr>capacity = 2, items = [], pos = 1\<rparr>"
  by (simp add: NewMeasurementsBuffer_def window_new_def Append_def Next_def Remove_def)

section \<open>The calls issued by \<open>ping\<close>\<close>


text \<open>
  Whatever the collaborators answer and however long it runs, \<open>ping\<close> only appends
  to the trace, issues no call but polls, incremental outputs, creations of the request
  it was started on (up to its locations), clock reads, sleeps and session writes, and
  returns no error but one it got from the client or the viewer.
\<close>


lemma trace_ext_refl: "trace_ext mc r r"
  by (simp add: trace_ext_def)

lemma trace_ext_trans: "trace_ext mc r r1 \<Longrightarrow> trace_ext mc r1 r2 \<Longrightarrow> trace_ext mc r r2"
  by (auto simp: trace_ext_def)

lemma trace_ext_same: "trace r' = trace r \<Longrightarrow> trace_ext mc r r'"
  by (simp add: trace_ext_def)

lemma trace_ext_snoc:
  "trace_ext mc r r1 \<Longrightarrow> trace r2 = trace r1 @ evs \<Longrightarrow> list_all (ping_event mc) evs \<Longrightarrow> trace_ext mc r r2"
  by (auto simp: trace_ext_def)

lemma createMeasurement_ext:
  assumes "same_request mc o1" and "createMeasurement env o1 r = (res, r')"
  shows "trace_ext mc r r' \<and> (case res of Inl e \<Rightarrow> remote_error e | Inr hm \<Rightarrow> True)"
  using assms
  by (auto simp: createMeasurement_def saveIdToSession_def Let_def trace_ext_def
           split: sum.splits prod.splits option.splits if_splits)

lemma ping_append_ext:
  assumes "ping_inv mc ps" and "ping_append env ps = (out, ps')"
  shows "ping_inv mc ps' \<and> trace_ext mc (root ps) (root ps') \<and> (\<forall>e. out \<noteq> Returned e)"
proof (cases "runErr ps \<noteq> None \<or> CanAppend (heap (root ps)) (mbuf ps) \<noteq> Inr True \<or>
              Last (History (ctx (root ps))) = nil")
  case True
  with assms show ?thesis
    by (auto simp: ping_append_def trace_ext_refl split: sum.splits ptr.splits if_splits)
next
  case False
  then obtain l where l: "runErr ps = None" "CanAppend (heap (root ps)) (mbuf ps) = Inr True"
    "Last (History (ctx (root ps))) = Ref l" by (cases "Last (History (ctx (root ps)))") auto
  let ?o1 = "(opts ps)\<lparr>mcLocations := [\<lparr>Magic = Id (heap (root ps) l)\<rparr>]\<rparr>"
  let ?r1 = "(root ps)\<lparr>trace := trace (root ps) @ [CallNow]\<rparr>"
  obtain res r2 where cm: "createMeasurement env ?o1 ?r1 = (res, r2)" by fastforce
  from assms(1) have sr: "same_request mc ?o1" by (simp add: ping_inv_def same_request_def)
  from createMeasurement_ext [OF sr cm]
  have e2: "trace_ext mc ?r1 r2" and re: "case res of Inl e \<Rightarrow> remote_error e | Inr hm \<Rightarrow> True"
    by simp_all
  have e1: "trace_ext mc (root ps) ?r1" by (simp add: trace_ext_def)
  let ?r3 = "r2\<lparr>trace := trace r2 @ [CallNow]\<rparr>"
  have e3: "trace_ext mc (root ps) ?r3"
    by (rule trace_ext_snoc [OF trace_ext_trans [OF e1 e2], where evs = "[CallNow]"]) simp_all
  from assms(2) l cm have out: "out = Running"
    and ps': "ps' = ps\<lparr>root := ?r3, opts := ?o1,
                 mbuf := Append (case res of Inl e \<Rightarrow> nil | Inr hm \<Rightarrow> hm) (mbuf ps),
                 runErr := (case res of Inl e \<Rightarrow> Some e | Inr hm \<Rightarrow> None),
                 elapsedTime := elapsedTime ps + (Now env (trace r2) - Now env (trace (root ps)))\<rparr>"
    by (simp_all add: ping_append_def Let_def)
  from sr re have "ping_inv mc ps'" unfolding ps' by (cases res) (simp_all add: ping_inv_def)
  with out e3 ps' show ?thesis by simp
qed


lemma ping_append_after:
  assumes "ping_inv mc ps2" and "trace_ext mc r (root ps2)" and "ping_append env ps2 = (out, ps')"
  shows "ping_inv mc ps' \<and> trace_ext mc r (root ps') \<and> (\<forall>e. out = Returned e \<longrightarrow> remote_error e)"
  using ping_append_ext [OF assms(1,3)] assms(2) by (auto intro: trace_ext_trans)

lemma ping_body_ext:
  assumes inv: "ping_inv mc ps" and body: "ping_body env a ps = (out, ps')"
  shows "ping_inv mc ps' \<and> trace_ext mc (root ps) (root ps') \<and>
         (\<forall>e. out = Returned e \<longrightarrow> remote_error e)"
proof (cases "GetMeasurement env (trace (root ps)) (Id (heap (root ps) a))")
  case (Inl msg)
  with body inv show ?thesis
    by (auto simp: ping_body_def Let_def ping_inv_def trace_ext_def)
next
  case (Inr m)
  let ?r1 = "(root ps)\<lparr>trace := trace (root ps) @ [CallGetMeasurement (Id (heap (root ps) a))]\<rparr>"
  let ?r2 = "?r1\<lparr>heap := (heap ?r1)(a := (heap ?r1 a)\<lparr>Status := mStatus m\<rparr>)\<rparr>"
  let ?r3 = "?r2\<lparr>trace := trace ?r2 @ [CallOutputInfinite m]\<rparr>"
  show ?thesis
  proof (cases "Results m = []")
    case True
    with body inv Inr show ?thesis
      by (auto simp: ping_body_def Let_def ping_inv_def trace_ext_def)
  next
    case False
    show ?thesis
    proof (cases "OutputInfinite env (trace ?r2) m")
      case (Some msg)
      with body inv Inr False show ?thesis
        by (auto simp: ping_body_def Let_def ping_inv_def trace_ext_def)
    next
      case None
      have e3: "trace_ext mc (root ps) ?r3" by (simp add: trace_ext_def)
      show ?thesis
      proof (cases "mStatus m \<noteq> StatusInProgress")
        case True
        show ?thesis
        proof (cases "Remove (Ref a) (mbuf ps)")
          case (Inl p)
          with body inv Inr False None True show ?thesis
            by (auto simp: ping_body_def Let_def ping_inv_def trace_ext_def)
        next
          case (Inr b)
          let ?ps2 = "ps\<lparr>root := ?r3, mbuf := b\<rparr>"
          from body \<open>GetMeasurement env (trace (root ps)) (Id (heap (root ps) a)) = Inr m\<close>
            False None True Inr
          have pa: "ping_append env ?ps2 = (out, ps')" by (simp add: ping_body_def Let_def)
          from inv have i2: "ping_inv mc ?ps2" by (simp add: ping_inv_def)
          from e3 have t2: "trace_ext mc (root ps) (root ?ps2)" by simp
          from ping_append_after [OF i2 t2 pa] show ?thesis .
        qed
      next
        case False
        let ?ps2 = "ps\<lparr>root := ?r3\<lparr>heap := (heap ?r3)(a := (heap ?r3 a)
                          \<lparr>IsPartiallyFinished := Root_IsPartiallyFinished m\<rparr>)\<rparr>\<rparr>"
        from body Inr \<open>Results m \<noteq> []\<close> None False
        have pa: "ping_append env ?ps2 = (out, ps')" by (simp add: ping_body_def Let_def)
        from inv have i2: "ping_inv mc ?ps2" by (simp add: ping_inv_def)
        have t2: "trace_ext mc (root ps) (root ?ps2)" by (simp add: trace_ext_def)
        from ping_append_after [OF i2 t2 pa] show ?thesis .
      qed
    qed
  qed
qed

lemma ping_round_end_ext:
  assumes inv: "ping_inv mc ps" and re: "ping_round_end env ps = (out, ps')"
  shows "ping_inv mc ps' \<and> trace_ext mc (root ps) (root ps') \<and>
         (\<forall>e. out = Returned e \<longrightarrow> remote_error e)"
proof (cases "Len (mbuf ps) > 0 \<or> runErr ps \<noteq> None")
  case True
  with inv re show ?thesis
    by (auto simp: ping_round_end_def ping_inv_def trace_ext_def split: if_splits)
next
  case False
  let ?o1 = "case Last (History (ctx (root ps))) of nil \<Rightarrow> opts ps
             | Ref l \<Rightarrow> (opts ps)\<lparr>mcLocations := [\<lparr>Magic = Id (heap (root ps) l)\<rparr>]\<rparr>"
  obtain res r1 where cm: "createMeasurement env ?o1 (root ps) = (res, r1)" by fastforce
  from inv have sr: "same_request mc ?o1"
    by (cases "Last (History (ctx (root ps)))") (simp_all add: ping_inv_def same_request_def)
  from createMeasurement_ext [OF sr cm]
  have e1: "trace_ext mc (root ps) r1" and rr: "case res of Inl e \<Rightarrow> remote_error e | Inr hm \<Rightarrow> True"
    by simp_all
  from False have f: "\<not> Len (mbuf ps) > 0" "runErr ps = None" by simp_all
  show ?thesis
  proof (cases res)
    case (Inl e)
    with re cm f have "out = Returned e" "ps' = ps\<lparr>root := r1, opts := ?o1\<rparr>"
      by (simp_all add: ping_round_end_def Let_def)
    with inv sr e1 rr Inl show ?thesis by (simp add: ping_inv_def)
  next
    case (Inr hm)
    with re cm f have "out = Running" "ps' = ps\<lparr>root := r1, opts := ?o1, mbuf := Append hm (mbuf ps)\<rparr>"
      by (simp_all add: ping_round_end_def Let_def)
    with inv sr e1 show ?thesis by (simp add: ping_inv_def)
  qed
qed

lemma ping_loop_ext:
  "ping_inv mc ps \<Longrightarrow> ping_loop env n el ps = (out, ps') \<Longrightarrow>
   ping_inv mc ps' \<and> trace_ext mc (root ps) (root ps') \<and>
   (\<forall>e. out = Returned e \<longrightarrow> remote_error e)"
proof (induction n arbitrary: el ps)
  case 0
  then show ?case by (simp add: trace_ext_refl)
next
  case (Suc n)
  show ?case
  proof (cases el)
    case nil
    obtain o1 ps1 where st: "ping_round_end env ps = (o1, ps1)" by fastforce
    from ping_round_end_ext [OF Suc.prems(1) st]
    have i1: "ping_inv mc ps1" and t1: "trace_ext mc (root ps) (root ps1)"
      and r1: "\<forall>e. o1 = Returned e \<longrightarrow> remote_error e" by simp_all
    show ?thesis
    proof (cases o1)
      case Running
      show ?thesis
      proof (cases "Next (Restart (mbuf ps1))")
        case (Inl p)
        with Suc.prems(2) nil st Running i1 t1 show ?thesis by auto
      next
        case (Inr x)
        then obtain el1 b1 where nx: "Next (Restart (mbuf ps1)) = Inr (el1, b1)" by (cases x) auto
        let ?ps2 = "ps1\<lparr>mbuf := b1, elapsedTime := 0\<rparr>"
        from Suc.prems(2) nil st Running nx
        have lp: "ping_loop env n el1 ?ps2 = (out, ps')" by simp
        from i1 have i2: "ping_inv mc ?ps2" by (simp add: ping_inv_def)
        from Suc.IH [OF i2 lp] t1 show ?thesis by (auto intro: trace_ext_trans)
      qed
    next
      case (Returned e)
      with Suc.prems(2) nil st i1 t1 r1 show ?thesis by auto
    next
      case (Crashed p)
      with Suc.prems(2) nil st i1 t1 show ?thesis by auto
    qed
  next
    case (Ref a)
    obtain o1 ps1 where st: "ping_body env a ps = (o1, ps1)" by fastforce
    from ping_body_ext [OF Suc.prems(1) st]
    have i1: "ping_inv mc ps1" and t1: "trace_ext mc (root ps) (root ps1)"
      and r1: "\<forall>e. o1 = Returned e \<longrightarrow> remote_error e" by simp_all
    show ?thesis
    proof (cases o1)
      case Running
      show ?thesis
      proof (cases "Next (mbuf ps1)")
        case (Inl p)
        with Suc.prems(2) Ref st Running i1 t1 show ?thesis by auto
      next
        case (Inr x)
        then obtain el1 b1 where nx: "Next (mbuf ps1) = Inr (el1, b1)" by (cases x) auto
        let ?ps2 = "ps1\<lparr>mbuf := b1\<rparr>"
        from Suc.prems(2) Ref st Running nx
        have lp: "ping_loop env n el1 ?ps2 = (out, ps')" by simp
        from i1 have i2: "ping_inv mc ?ps2" by (simp add: ping_inv_def)
        from Suc.IH [OF i2 lp] t1 show ?thesis by (auto intro: trace_ext_trans)
      qed
    next
      case (Returned e)
      with Suc.prems(2) Ref st i1 t1 r1 show ?thesis by auto
    next
      case (Crashed p)
      with Suc.prems(2) Ref st i1 t1 show ?thesis by auto
    qed
  qed
qed

lemma ping_ext:
  assumes "ping env n mc r = (out, ps')"
  shows "trace_ext mc r (root ps') \<and> (\<forall>e. out = Returned e \<longrightarrow> remote_error e) \<and>
         same_request mc (opts ps')"
proof -
  let ?ps = "ping_init mc r \<lparr>capacity = 2, items = [], pos = 0\<rparr>"
  have i: "ping_inv mc ?ps" by (simp add: ping_inv_def ping_init_def same_request_def)
  from assms have "ping_loop env n nil ?ps = (out, ps')"
    by (simp add: ping_def NewMeasurementsBuffer_def Restart_def Next_def)
  from ping_loop_ext [OF i this] show ?thesis by (simp add: ping_init_def ping_inv_def)
qed


lemma trace_ext_creates:
  assumes "trace_ext mc r r'"
  shows "\<exists>evs. trace r' = trace r @ evs \<and>
           (\<forall>o1. CallCreateMeasurement o1 \<in> set evs \<longrightarrow> mcOptions o1 = mcOptions mc)"
proof -
  from assms obtain evs where evs: "trace r' = trace r @ evs" "list_all (ping_event mc) evs"
    by (auto simp: trace_ext_def)
  from evs(2) have "\<forall>o1. CallCreateMeasurement o1 \<in> set evs \<longrightarrow> mcOptions o1 = mcOptions mc"
    by (auto simp: list_all_iff same_request_def)
  with evs(1) show ?thesis by blast
qed

section \<open>\<open>pingInfinite\<close> and \<open>RunPing\<close>\<close>

text \<open>
  Claim C7. With a probe limit above 5, \<open>pingInfinite\<close> returns the fixed error
  ``continous mode is currently limited to 5 probes'' and leaves the whole state as it
  was: no call has been issued and no run state entered. With a limit of at most 5 the
  error it returns, if any, is never one built by \<open>fmt.Errorf\<close>: the validation does
  not fail.
\<close>


theorem pingInfinite_limit:
  "(5 < Limit (ctx r) \<longrightarrow>
      pingInfinite env n mc r =
        (Inr (Some (Errorf ''continous mode is currently limited to 5 probes'')), r)) \<and>
   (Limit (ctx r) \<le> 5 \<longrightarrow> (\<forall>msg. fst (pingInfinite env n mc r) \<noteq> Inr (Some (Errorf msg))))"
proof (intro conjI impI allI)
  assume "5 < Limit (ctx r)"
  then show "pingInfinite env n mc r =
        (Inr (Some (Errorf ''continous mode is currently limited to 5 probes'')), r)"
    by (simp add: pingInfinite_def)
next
  fix msg
  assume le: "Limit (ctx r) \<le> 5"
  obtain out ps where p: "ping env n mc r = (out, ps)" by fastforce
  from ping_ext [OF p] have "\<forall>e. out = Returned e \<longrightarrow> remote_error e" by simp
  with le p show "fst (pingInfinite env n mc r) \<noteq> Inr (Some (Errorf msg))"
    by (cases out) (auto simp: pingInfinite_def)
qed

theorem pingInfinite_limit_witness:
  "5 < Limit (ctx root_limit6) \<and>
   pingInfinite env_poll_fails 3 mc0 root_limit6 =
     (Inr (Some (Errorf ''continous mode is currently limited to 5 probes'')), root_limit6) \<and>
   Limit (ctx root0) \<le> 5 \<and>
   fst (pingInfinite env_poll_fails 3 mc0 root0) = Inr (Some (GetMeasurementError ''boom'')) \<and>
   fst (pingInfinite env_poll_fails 3 mc0 root0) \<noteq>
     Inr (Some (Errorf ''continous mode is currently limited to 5 probes''))"
proof -
  have h1: "5 < Limit (ctx root_limit6)" by (simp add: root_limit6_def)
  have h2: "Limit (ctx root0) \<le> 5" by (simp add: root0_def ctx0_def)
  have e: "fst (pingInfinite env_poll_fails 3 mc0 root0) = Inr (Some (GetMeasurementError ''boom''))"
    by code_simp
  from pingInfinite_limit [of root_limit6 env_poll_fails 3 mc0] h1
    pingInfinite_limit [of root0 env_poll_fails 3 mc0] h2 e
  show ?thesis by blast
qed




text \<open>
  Claim C10. Let \<open>c\<close> be the context once \<open>updateContext\<close> has succeeded. Every
  measurement that \<open>RunPing\<close> creates is requested with 16 packets if \<open>Infinite\<close> is
  set in \<open>c\<close>, whatever \<open>Packets\<close> was, and with the packets of \<open>c\<close> otherwise.
\<close>


theorem RunPing_packets:
  assumes uc: "updateContext env cmd args (ctx r) = (None, c)"
    and run: "RunPing env n cmd args r = (res, r')"
  shows "\<exists>evs. trace r' = trace r @ evs \<and>
           (\<forall>mc. CallCreateMeasurement mc \<in> set evs \<longrightarrow>
                   moPackets (mcOptions mc) = (if Infinite c then 16 else Packets c))"
proof -
  let ?c1 = "c\<lparr>RecordToSession := True\<rparr>"
  let ?c2 = "if Infinite ?c1 then ?c1\<lparr>Packets := 16\<rparr> else ?c1"
  let ?mc = "\<lparr>mcType = ''ping'', mcTarget = Target ?c2, mcLimit = Limit ?c2,
               mcInProgressUpdates = (\<not> CIMode ?c2),
               mcOptions = \<lparr>moPackets = Packets ?c2\<rparr>, mcLocations = []\<rparr>"
  let ?p = "if Infinite c then 16 else Packets c"
  have pk: "moPackets (mcOptions ?mc) = ?p" by simp
  obtain gl c3 where gl: "getLocations env (r\<lparr>ctx := ?c2\<rparr>) = (gl, c3)" by fastforce
  show ?thesis
  proof (cases gl)
    case (Inl msg)
    with uc run gl have "trace r' = trace r" by (auto simp: RunPing_def Let_def)
    then show ?thesis by simp
  next
    case (Inr locs)
    let ?o1 = "?mc\<lparr>mcLocations := locs\<rparr>"
    let ?r1 = "r\<lparr>ctx := c3\<rparr>"
    have sr: "same_request ?mc ?o1" by (simp add: same_request_def)
    show ?thesis
    proof (cases "Infinite c3")
      case True
      with uc run gl Inr have pi: "pingInfinite env n ?o1 ?r1 = (res, r')"
        by (simp add: RunPing_def Let_def)
      show ?thesis
      proof (cases "5 < Limit (ctx ?r1)")
        case True
        with pi have "trace r' = trace r" by (auto simp: pingInfinite_def)
        then show ?thesis by simp
      next
        case False
        obtain out ps where p: "ping env n ?o1 ?r1 = (out, ps)" by fastforce
        from ping_ext [OF p] have "trace_ext ?o1 ?r1 (root ps)" by simp
        from trace_ext_creates [OF this] obtain evs where
          evs: "trace (root ps) = trace r @ evs"
               "\<forall>o1. CallCreateMeasurement o1 \<in> set evs \<longrightarrow> mcOptions o1 = mcOptions ?o1"
          by auto
        from evs(2) have ok: "\<forall>o1. CallCreateMeasurement o1 \<in> set evs \<longrightarrow> moPackets (mcOptions o1) = ?p"
          by simp
        from pi p False have "trace r' = trace (root ps) \<or> trace r' = trace (root ps) @ [CallOutputSummary]"
          by (cases out) (auto simp: pingInfinite_def)
        then show ?thesis
        proof
          assume "trace r' = trace (root ps)"
          with evs(1) ok show ?thesis by (intro exI [of _ evs]) simp
        next
          assume "trace r' = trace (root ps) @ [CallOutputSummary]"
          with evs(1) ok show ?thesis by (intro exI [of _ "evs @ [CallOutputSummary]"]) simp
        qed
      qed
    next
      case False
      obtain cr r2 where cm: "createMeasurement env ?o1 ?r1 = (cr, r2)" by fastforce
      from createMeasurement_ext [OF sr cm] have "trace_ext ?mc ?r1 r2" by simp
      from trace_ext_creates [OF this] obtain evs where
        evs: "trace r2 = trace r @ evs"
             "\<forall>o1. CallCreateMeasurement o1 \<in> set evs \<longrightarrow> mcOptions o1 = mcOptions ?mc"
        by auto
      from evs(2) have ok: "\<forall>o1. CallCreateMeasurement o1 \<in> set evs \<longrightarrow> moPackets (mcOptions o1) = ?p"
        by simp
      from uc run gl Inr False cm
      have "trace r' = trace r2 \<or> (\<exists>i. trace r' = trace r2 @ [CallOutput i ?o1])"
        by (auto simp: RunPing_def Let_def split: sum.splits ptr.splits option.splits)
      then show ?thesis
      proof
        assume "trace r' = trace r2"
        with evs(1) ok show ?thesis by (intro exI [of _ evs]) simp
      next
        assume "\<exists>i. trace r' = trace r2 @ [CallOutput i ?o1]"
        then obtain i where "trace r' = trace r2 @ [CallOutput i ?o1]" by blast
        with evs(1) ok show ?thesis by (intro exI [of _ "evs @ [CallOutput i ?o1]"]) simp
      qed
    qed
  qed
qed

theorem RunPing_packets_witness:
  "updateContext env_poll_fails ''ping'' [''jsdelivr.com''] (ctx root0) = (None, ctx0) \<and>
   Infinite ctx0 \<and> Packets ctx0 = 3 \<and>
   created_packets (trace (snd (RunPing env_poll_fails 2 ''ping'' [''jsdelivr.com''] root0))) =
     [16, 16] \<and>
   updateContext env_poll_fails ''ping'' [''jsdelivr.com''] (ctx root_oneshot) =
     (None, ctx0\<lparr>Infinite := False\<rparr>) \<and>
   created_packets (trace (snd (RunPing env_poll_fails 2 ''ping'' [''jsdelivr.com''] root_oneshot))) =
     [3]"
proof -
  have u1: "updateContext env_poll_fails ''ping'' [''jsdelivr.com''] (ctx root0) = (None, ctx0)"
    by (simp add: env_poll_fails_def root0_def)
  have u2: "updateContext env_poll_fails ''ping'' [''jsdelivr.com''] (ctx root_oneshot) =
     (None, ctx0\<lparr>Infinite := False\<rparr>)"
    by (simp add: env_poll_fails_def root_oneshot_def root0_def)
  have c: "Infinite ctx0" "Packets ctx0 = 3" by (simp_all add: ctx0_def)
  have m1: "created_packets (trace (snd (RunPing env_poll_fails 2 ''ping'' [''jsdelivr.com''] root0))) =
     [16, 16]"
    by code_simp
  have m2: "created_packets
              (trace (snd (RunPing env_poll_fails 2 ''ping'' [''jsdelivr.com''] root_oneshot))) = [3]"
    by code_simp
  from RunPing_packets [OF u1 prod.collapse [symmetric], of 2]
    RunPing_packets [OF u2 prod.collapse [symmetric], of 2] u1 u2 c m1 m2
  show ?thesis by simp
qed

section \<open>Errors and skipped polls inside a sweep\<close>

text \<open>
  Claim C1, as amended. In continuous mode an error of the poll or of the incremental
  output is not deferred: the step of the sweep that meets it makes \<open>ping\<close> return that
  error at once, having set \<open>SilenceUsage\<close>. The window is left as it was (it is not
  drained), and no further call is issued, so the items not yet visited in that sweep
  are neither polled nor rendered.
\<close>


theorem poll_or_render_error_returns_at_once:
  "(GetMeasurement env (trace (root ps)) (Id (heap (root ps) a)) = Inl msg \<longrightarrow>
      ping_loop env (Suc n) (Ref a) ps =
        (Returned (GetMeasurementError msg),
         ps\<lparr>root := (root ps)\<lparr>trace := trace (root ps) @ [CallGetMeasurement (Id (heap (root ps) a))],
                               SilenceUsage := True\<rparr>\<rparr>)) \<and>
   (GetMeasurement env (trace (root ps)) (Id (heap (root ps) a)) = Inr m \<and> Results m \<noteq> [] \<and>
    OutputInfinite env (trace (root ps) @ [CallGetMeasurement (Id (heap (root ps) a))]) m = Some msg \<longrightarrow>
      ping_loop env (Suc n) (Ref a) ps =
        (Returned (OutputInfiniteError msg),
         ps\<lparr>root := (root ps)\<lparr>heap := (heap (root ps))(a := (heap (root ps) a)\<lparr>Status := mStatus m\<rparr>),
                               trace := trace (root ps) @
                                 [CallGetMeasurement (Id (heap (root ps) a)), CallOutputInfinite m],
                               SilenceUsage := True\<rparr>\<rparr>))"
  by (simp add: ping_body_def Let_def)

theorem poll_or_render_error_returns_at_once_witness:
  "GetMeasurement env_poll_fails (trace (root (snd (ping env_poll_fails 2 mc0 root0))))
     (Id (heap (root (snd (ping env_poll_fails 2 mc0 root0))) 1)) = Inl ''boom'' \<and>
   fst (ping_loop env_poll_fails (Suc 0) (Ref 1) (snd (ping env_poll_fails 2 mc0 root0))) =
     Returned (GetMeasurementError ''boom'') \<and>
   GetMeasurement env_render_fails (trace (root (snd (ping env_render_fails 1 mc0 root0))))
     (Id (heap (root (snd (ping env_render_fails 1 mc0 root0))) 0)) = Inr (partial_measurement ''m1'') \<and>
   Results (partial_measurement ''m1'') \<noteq> [] \<and>
   OutputInfinite env_render_fails
     (trace (root (snd (ping env_render_fails 1 mc0 root0))) @
      [CallGetMeasurement (Id (heap (root (snd (ping env_render_fails 1 mc0 root0))) 0))])
     (partial_measurement ''m1'') = Some ''broken pipe'' \<and>
   fst (ping_loop env_render_fails (Suc 0) (Ref 0) (snd (ping env_render_fails 1 mc0 root0))) =
     Returned (OutputInfiniteError ''broken pipe'')"
proof -
  let ?ps = "snd (ping env_poll_fails 2 mc0 root0)"
  let ?qs = "snd (ping env_render_fails 1 mc0 root0)"
  have h1: "GetMeasurement env_poll_fails (trace (root ?ps)) (Id (heap (root ?ps) 1)) = Inl ''boom''"
    by code_simp
  have h2: "GetMeasurement env_render_fails (trace (root ?qs)) (Id (heap (root ?qs) 0)) =
            Inr (partial_measurement ''m1'')"
    by code_simp
  have h3: "Results (partial_measurement ''m1'') \<noteq> []" by (simp add: partial_measurement_def)
  have h4: "OutputInfinite env_render_fails
     (trace (root ?qs) @ [CallGetMeasurement (Id (heap (root ?qs) 0))])
     (partial_measurement ''m1'') = Some ''broken pipe''"
    by (simp add: env_render_fails_def)
  from poll_or_render_error_returns_at_once [of env_poll_fails ?ps 1 "''boom''" 0] h1
  have c1: "fst (ping_loop env_poll_fails (Suc 0) (Ref 1) ?ps) = Returned (GetMeasurementError ''boom'')"
    by simp
  from poll_or_render_error_returns_at_once
         [of env_render_fails ?qs 0 "''broken pipe''" 0 "partial_measurement ''m1''"] h2 h3 h4
  have c2: "fst (ping_loop env_render_fails (Suc 0) (Ref 0) ?qs) =
            Returned (OutputInfiniteError ''broken pipe'')"
    by simp
  from h1 h2 h3 h4 c1 c2 show ?thesis by simp
qed

text \<open>
  A run against a service that fails the poll of the second measurement: \<open>ping\<close>
  returns the error of that poll while both measurements are still in the window, and
  the last call of the run is the failed poll.
\<close>


theorem poll_error_counterexample:
  "fst (ping env_poll_fails 3 mc0 root0) = Returned (GetMeasurementError ''boom'') \<and>
   items (mbuf (snd (ping env_poll_fails 3 mc0 root0))) = [Ref 0, Ref 1] \<and>
   Id (heap (root (snd (ping env_poll_fails 3 mc0 root0))) 1) = ''m2'' \<and>
   trace (root (snd (ping env_poll_fails 3 mc0 root0))) =
     [CallCreateMeasurement mc0, CallNow,
      CallGetMeasurement ''m1'', CallOutputInfinite (partial_measurement ''m1''),
      CallNow, CallCreateMeasurement (mc0\<lparr>mcLocations := [\<lparr>Magic = ''m1''\<rparr>]\<rparr>), CallNow, CallNow,
      CallGetMeasurement ''m2'']"
  by code_simp

text \<open>
  Claim C3, as amended. When the poll of an item returns an empty result list, the body
  of the loop writes the polled status into the item (line 134 precedes the test of
  line 135) and changes nothing else: the window, the history and the rest of the
  context, the other fields of the item and all other items are as before, and the only
  call issued is the poll itself. The loop then moves on to the next item. If the polled
  status equals the stored one, no item has changed at all.
\<close>


theorem empty_poll_sets_status_only:
  assumes "GetMeasurement env (trace (root ps)) (Id (heap (root ps) a)) = Inr m"
    and "Results m = []"
  shows "\<exists>ps1. ping_body env a ps = (Running, ps1) \<and>
           mbuf ps1 = mbuf ps \<and> opts ps1 = opts ps \<and> runErr ps1 = runErr ps \<and>
           elapsedTime ps1 = elapsedTime ps \<and>
           ctx (root ps1) = ctx (root ps) \<and> SilenceUsage (root ps1) = SilenceUsage (root ps) \<and>
           next_addr (root ps1) = next_addr (root ps) \<and> session (root ps1) = session (root ps) \<and>
           trace (root ps1) = trace (root ps) @ [CallGetMeasurement (Id (heap (root ps) a))] \<and>
           heap (root ps1) = (heap (root ps))(a := (heap (root ps) a)\<lparr>Status := mStatus m\<rparr>) \<and>
           (mStatus m = Status (heap (root ps) a) \<longrightarrow> heap (root ps1) = heap (root ps)) \<and>
           ping_loop env (Suc n) (Ref a) ps =
             (case Next (mbuf ps) of
                Inl p \<Rightarrow> (Crashed p, ps1)
              | Inr (el1, b1) \<Rightarrow> ping_loop env n el1 (ps1\<lparr>mbuf := b1\<rparr>))"
  using assms by (auto simp: ping_body_def Let_def)

theorem empty_poll_sets_status_only_witness:
  "GetMeasurement env_empty_finished (trace (root (snd (ping env_empty_finished 1 mc0 root0))))
     (Id (heap (root (snd (ping env_empty_finished 1 mc0 root0))) 0)) =
     Inr \<lparr>mID = ''m1'', mStatus = StatusFinished, Results = []\<rparr> \<and>
   Results \<lparr>mID = ''m1'', mStatus = StatusFinished, Results = []\<rparr> = [] \<and>
   fst (ping_body env_empty_finished 0 (snd (ping env_empty_finished 1 mc0 root0))) = Running \<and>
   mbuf (snd (ping_body env_empty_finished 0 (snd (ping env_empty_finished 1 mc0 root0)))) =
     mbuf (snd (ping env_empty_finished 1 mc0 root0)) \<and>
   GetMeasurement env_empty_progress (trace (root (snd (ping env_empty_progress 1 mc0 root0))))
     (Id (heap (root (snd (ping env_empty_progress 1 mc0 root0))) 0)) =
     Inr \<lparr>mID = ''m1'', mStatus = StatusInProgress, Results = []\<rparr> \<and>
   mStatus \<lparr>mID = ''m1'', mStatus = StatusInProgress, Results = []\<rparr> =
     Status (heap (root (snd (ping env_empty_progress 1 mc0 root0))) 0) \<and>
   heap (root (snd (ping_body env_empty_progress 0 (snd (ping env_empty_progress 1 mc0 root0))))) =
     heap (root (snd (ping env_empty_progress 1 mc0 root0)))"
proof -
  let ?ps = "snd (ping env_empty_finished 1 mc0 root0)"
  let ?m = "\<lparr>mID = ''m1'', mStatus = StatusFinished, Results = []\<rparr>"
  let ?qs = "snd (ping env_empty_progress 1 mc0 root0)"
  let ?k = "\<lparr>mID = ''m1'', mStatus = StatusInProgress, Results = []\<rparr>"
  have h1: "GetMeasurement env_empty_finished (trace (root ?ps)) (Id (heap (root ?ps) 0)) = Inr ?m"
    by code_simp
  have h2: "Results ?m = []" by simp
  have g1: "GetMeasurement env_empty_progress (trace (root ?qs)) (Id (heap (root ?qs) 0)) = Inr ?k"
    by code_simp
  have g2: "Results ?k = []" by simp
  have g3: "mStatus ?k = Status (heap (root ?qs) 0)" by code_simp
  from empty_poll_sets_status_only [OF h1 h2, of 0]
  obtain ps1 where "ping_body env_empty_finished 0 ?ps = (Running, ps1)" "mbuf ps1 = mbuf ?ps"
    by blast
  then have a: "fst (ping_body env_empty_finished 0 ?ps) = Running"
    "mbuf (snd (ping_body env_empty_finished 0 ?ps)) = mbuf ?ps" by simp_all
  from empty_poll_sets_status_only [OF g1 g2, of 0] g3
  obtain qs1 where "ping_body env_empty_progress 0 ?qs = (Running, qs1)"
    "heap (root qs1) = heap (root ?qs)"
    by blast
  then have b: "heap (root (snd (ping_body env_empty_progress 0 ?qs))) = heap (root ?qs)" by simp
  from h1 g1 g3 a b show ?thesis by simp
qed

text \<open>
  A service that reports a measurement as finished with an empty result list: the
  skipped iteration turns the status of the item from in-progress to finished, and the
  item stays in the window.
\<close>


theorem empty_poll_counterexample:
  "GetMeasurement env_empty_finished (trace (root (snd (ping env_empty_finished 1 mc0 root0))))
     (Id (heap (root (snd (ping env_empty_finished 1 mc0 root0))) 0)) =
     Inr \<lparr>mID = ''m1'', mStatus = StatusFinished, Results = []\<rparr> \<and>
   Status (heap (root (snd (ping env_empty_finished 1 mc0 root0))) 0) = StatusInProgress \<and>
   fst (ping_body env_empty_finished 0 (snd (ping env_empty_finished 1 mc0 root0))) = Running \<and>
   Status (heap (root (snd (ping_body env_empty_finished 0
             (snd (ping env_empty_finished 1 mc0 root0))))) 0) = StatusFinished \<and>
   items (mbuf (snd (ping_body env_empty_finished 0
             (snd (ping env_empty_finished 1 mc0 root0))))) = [Ref 0]"
  by code_simp

section \<open>The session record\<close>








lemma at_most_one_line_same: "session r' = session r \<Longrightarrow> at_most_one_line r r'"
  by (simp add: at_most_one_line_def)












section \<open>A failed creation in the middle of a sweep\<close>







lemma blocked_weaken: "blocked A ids True ps \<Longrightarrow> blocked A ids sw ps"
  by (auto simp: blocked_def)
















text \<open>
  Lines 153--162 with a failing client: when the guard of line 153 holds and the client
  fails the creation of line 156, the error is recorded in \<open>runErr\<close> and the \<open>nil\<close>
  handle is appended; the loop goes on.
\<close>

lemma ping_append_failed_creation:
  assumes "runErr ps = None" and "CanAppend (heap (root ps)) (mbuf ps) = Inr True"
    and "Last (History (ctx (root ps))) = Ref l"
    and "CreateMeasurement env (trace (root ps) @ [CallNow])
           ((opts ps)\<lparr>mcLocations := [\<lparr>Magic = Id (heap (root ps) l)\<rparr>]\<rparr>) = Inl (msg, sh)"
  shows "\<exists>ps1. ping_append env ps = (Running, ps1) \<and> mbuf ps1 = Append nil (mbuf ps) \<and>
           runErr ps1 = Some (CreateMeasurementError msg)"
  using assms by (simp add: ping_append_def createMeasurement_def Let_def)






section \<open>The windows that \<open>ping\<close> builds\<close>

lemma engine_ok_iff:
  "engine_ok ps \<longleftrightarrow>
     window_ok (mbuf ps) \<and> capacity (mbuf ps) = 2 \<and> length (items (mbuf ps)) \<le> 2 \<and>
     (\<forall>a. Ref a \<in> set (items (mbuf ps)) \<longrightarrow> a < next_addr (root ps)) \<and>
     (nil \<in> set (items (mbuf ps)) \<longrightarrow> runErr ps \<noteq> None)"
  unfolding engine_ok_def list_all_iff by (auto split: ptr.splits)

lemma engine_okI:
  assumes "window_ok (mbuf ps)" "capacity (mbuf ps) = 2" "length (items (mbuf ps)) \<le> 2"
    and "\<And>a. Ref a \<in> set (items (mbuf ps)) \<Longrightarrow> a < next_addr (root ps)"
    and "nil \<in> set (items (mbuf ps)) \<Longrightarrow> runErr ps \<noteq> None"
  shows "engine_ok ps"
  unfolding engine_ok_iff using assms by blast

lemma engine_okD:
  assumes "engine_ok ps"
  shows "window_ok (mbuf ps)" "capacity (mbuf ps) = 2" "length (items (mbuf ps)) \<le> 2"
    and "\<And>a. Ref a \<in> set (items (mbuf ps)) \<Longrightarrow> a < next_addr (root ps)"
    and "runErr ps = None \<Longrightarrow> nil \<notin> set (items (mbuf ps))"
  using assms unfolding engine_ok_iff by auto

lemma createMeasurement_addr:
  assumes "createMeasurement env mc r = (res, r')"
  shows "case res of Inl e \<Rightarrow> next_addr r' = next_addr r
         | Inr hm \<Rightarrow> hm = Ref (next_addr r) \<and> next_addr r' = Suc (next_addr r)"
  using assms
  by (auto simp: createMeasurement_def saveIdToSession_def Let_def
           split: sum.splits prod.splits option.splits if_splits)

lemma engine_ok_root:
  assumes "engine_ok ps" and "next_addr r = next_addr (root ps)"
  shows "engine_ok (ps\<lparr>root := r\<rparr>)"
  using assms by (simp add: engine_ok_iff)

text \<open>On the windows that \<open>ping\<close> builds, \<open>CanAppend\<close> is only called without a
  \<open>nil\<close> handle in the window, so it does not panic.\<close>

lemma ping_append_engine:
  assumes ok: "engine_ok ps" and pa: "ping_append env ps = (out, ps')"
  shows "engine_ok ps' \<and> (\<forall>p. out = Crashed p \<longrightarrow> p = NilPointerDereference \<and>
           Last (History (ctx (root ps))) = nil)"
proof (cases "runErr ps")
  case (Some e)
  with ok pa show ?thesis by (simp add: ping_append_def)
next
  case None
  from engine_okD [OF ok] None have w: "window_ok (mbuf ps)" and c2: "capacity (mbuf ps) = 2"
    and nn: "nil \<notin> set (items (mbuf ps))"
    and lt: "\<And>a. Ref a \<in> set (items (mbuf ps)) \<Longrightarrow> a < next_addr (root ps)"
    by simp_all
  let ?c = "int (length (items (mbuf ps))) < capacity (mbuf ps) \<and>
            (\<exists>a. Ref a \<in> set (items (mbuf ps)) \<and> IsPartiallyFinished (heap (root ps) a))"
  from nn have ca: "CanAppend (heap (root ps)) (mbuf ps) = Inr ?c"
    by (auto simp: CanAppend_def CanAppend_loop_no_nil)
  show ?thesis
  proof (cases ?c)
    case False
    with pa None ca ok show ?thesis by (simp add: ping_append_def)
  next
    case True
    then have sp: "length (items (mbuf ps)) < 2" using c2 by simp
    show ?thesis
    proof (cases "Last (History (ctx (root ps)))")
      case nil
      with pa None ca True ok show ?thesis by (auto simp: ping_append_def)
    next
      case (Ref l)
      let ?o1 = "(opts ps)\<lparr>mcLocations := [\<lparr>Magic = Id (heap (root ps) l)\<rparr>]\<rparr>"
      let ?r1 = "(root ps)\<lparr>trace := trace (root ps) @ [CallNow]\<rparr>"
      obtain res r2 where cm: "createMeasurement env ?o1 ?r1 = (res, r2)" by fastforce
      let ?r3 = "r2\<lparr>trace := trace r2 @ [CallNow]\<rparr>"
      let ?hm = "case res of Inl e \<Rightarrow> nil | Inr hm \<Rightarrow> hm"
      from pa None ca True Ref cm have out: "out = Running"
        and ps': "ps' = ps\<lparr>root := ?r3, opts := ?o1, mbuf := Append ?hm (mbuf ps),
                 runErr := (case res of Inl e \<Rightarrow> Some e | Inr hm \<Rightarrow> None),
                 elapsedTime := elapsedTime ps + (Now env (trace r2) - Now env (trace (root ps)))\<rparr>"
        by (simp_all add: ping_append_def Let_def)
      from createMeasurement_addr [OF cm]
      have ad: "case res of Inl e \<Rightarrow> next_addr r2 = next_addr (root ps)
         | Inr hm \<Rightarrow> hm = Ref (next_addr (root ps)) \<and> next_addr r2 = Suc (next_addr (root ps))"
        by (cases res) simp_all
      have "engine_ok ps'"
      proof (cases res)
        case (Inl e)
        with ad have na: "next_addr r2 = next_addr (root ps)" by simp
        show ?thesis
        proof (rule engine_okI)
          show "window_ok (mbuf ps')" using w nn Inl ps'
            by (auto simp: window_ok_def Append_def)
          show "capacity (mbuf ps') = 2" using c2 ps' by (simp add: Append_def)
          show "length (items (mbuf ps')) \<le> 2" using sp ps' by (simp add: Append_def)
          show "\<And>a. Ref a \<in> set (items (mbuf ps')) \<Longrightarrow> a < next_addr (root ps')"
            using lt na Inl ps' by (auto simp: Append_def)
          show "nil \<in> set (items (mbuf ps')) \<Longrightarrow> runErr ps' \<noteq> None"
            using Inl ps' by simp
        qed
      next
        case (Inr hm)
        with ad have na: "hm = Ref (next_addr (root ps))" "next_addr r2 = Suc (next_addr (root ps))"
          by simp_all
        have fresh: "Ref (next_addr (root ps)) \<notin> set (items (mbuf ps))"
          using lt by fastforce
        show ?thesis
        proof (rule engine_okI)
          show "window_ok (mbuf ps')" using w fresh Inr na ps'
            by (auto simp: window_ok_def Append_def)
          show "capacity (mbuf ps') = 2" using c2 ps' by (simp add: Append_def)
          show "length (items (mbuf ps')) \<le> 2" using sp ps' by (simp add: Append_def)
          show "\<And>a. Ref a \<in> set (items (mbuf ps')) \<Longrightarrow> a < next_addr (root ps')"
            using lt na Inr ps' by (auto simp: Append_def less_Suc_eq)
          show "nil \<in> set (items (mbuf ps')) \<Longrightarrow> runErr ps' \<noteq> None"
            using nn na Inr ps' by (auto simp: Append_def)
        qed
      qed
      with out show ?thesis by simp
    qed
  qed
qed

lemma Remove_engine:
  assumes "engine_ok ps"
  shows "\<exists>b. Remove el (mbuf ps) = Inr b \<and> engine_ok (ps\<lparr>mbuf := b\<rparr>)"
proof -
  from engine_okD [OF assms] have w: "window_ok (mbuf ps)" and c2: "capacity (mbuf ps) = 2"
    and le: "length (items (mbuf ps)) \<le> 2"
    and lt: "\<And>a. Ref a \<in> set (items (mbuf ps)) \<Longrightarrow> a < next_addr (root ps)"
    and nn: "runErr ps = None \<Longrightarrow> nil \<notin> set (items (mbuf ps))"
    by simp_all
  from w have a: "0 \<le> pos (mbuf ps)" "pos (mbuf ps) \<le> int (length (items (mbuf ps)))"
    "distinct (items (mbuf ps))" "0 \<le> capacity (mbuf ps)" by (auto simp: window_ok_def)
  let ?b = "(mbuf ps)\<lparr>items := filter (\<lambda>x. x \<noteq> el) (items (mbuf ps)),
              pos := (if \<exists>j<length (items (mbuf ps)). items (mbuf ps) ! j = el \<and> int j < pos (mbuf ps)
                      then pos (mbuf ps) - 1 else pos (mbuf ps))\<rparr>"
  have rem: "Remove el (mbuf ps) = Inr ?b" using a(3,4) by (rule Remove_distinct)
  have "engine_ok (ps\<lparr>mbuf := ?b\<rparr>)"
  proof (rule engine_okI)
    show "window_ok (mbuf (ps\<lparr>mbuf := ?b\<rparr>))"
      using Remove_cursor_bounds [OF a(1,2,3), of el] a by (auto simp: window_ok_def)
    show "capacity (mbuf (ps\<lparr>mbuf := ?b\<rparr>)) = 2" using c2 by simp
    have "length (filter (\<lambda>x. x \<noteq> el) (items (mbuf ps))) \<le> length (items (mbuf ps))"
      by (rule length_filter_le)
    with le have "length (filter (\<lambda>x. x \<noteq> el) (items (mbuf ps))) \<le> 2" by (rule le_trans [rotated])
    then show "length (items (mbuf (ps\<lparr>mbuf := ?b\<rparr>))) \<le> 2" by simp
    show "\<And>a. Ref a \<in> set (items (mbuf (ps\<lparr>mbuf := ?b\<rparr>))) \<Longrightarrow> a < next_addr (root (ps\<lparr>mbuf := ?b\<rparr>))"
      using lt by simp
    show "nil \<in> set (items (mbuf (ps\<lparr>mbuf := ?b\<rparr>))) \<Longrightarrow> runErr (ps\<lparr>mbuf := ?b\<rparr>) \<noteq> None"
      using nn by auto
  qed
  with rem show ?thesis by blast
qed

lemma ping_body_engine:
  assumes ok: "engine_ok ps" and body: "ping_body env a ps = (out, ps')"
  shows "engine_ok ps' \<and> (\<forall>p. out = Crashed p \<longrightarrow> p = NilPointerDereference)"
proof (cases "GetMeasurement env (trace (root ps)) (Id (heap (root ps) a))")
  case (Inl msg)
  with body have "out = Returned (GetMeasurementError msg)"
    "ps' = ps\<lparr>root := (root ps)\<lparr>trace := trace (root ps) @ [CallGetMeasurement (Id (heap (root ps) a))],
                  SilenceUsage := True\<rparr>\<rparr>"
    by (simp_all add: ping_body_def Let_def)
  with engine_ok_root [OF ok] show ?thesis by simp
next
  case (Inr m)
  let ?r1 = "(root ps)\<lparr>trace := trace (root ps) @ [CallGetMeasurement (Id (heap (root ps) a))]\<rparr>"
  let ?r2 = "?r1\<lparr>heap := (heap ?r1)(a := (heap ?r1 a)\<lparr>Status := mStatus m\<rparr>)\<rparr>"
  let ?r3 = "?r2\<lparr>trace := trace ?r2 @ [CallOutputInfinite m]\<rparr>"
  show ?thesis
  proof (cases "Results m = []")
    case True
    with body Inr have "out = Running" "ps' = ps\<lparr>root := ?r2\<rparr>"
      by (simp_all add: ping_body_def Let_def)
    with engine_ok_root [OF ok, of ?r2] show ?thesis by simp
  next
    case ne: False
    show ?thesis
    proof (cases "OutputInfinite env (trace ?r2) m")
      case (Some msg)
      with body Inr ne have "out = Returned (OutputInfiniteError msg)"
        "ps' = ps\<lparr>root := ?r3\<lparr>SilenceUsage := True\<rparr>\<rparr>"
        by (simp_all add: ping_body_def Let_def)
      with engine_ok_root [OF ok, of "?r3\<lparr>SilenceUsage := True\<rparr>"] show ?thesis by simp
    next
      case None
      show ?thesis
      proof (cases "mStatus m \<noteq> StatusInProgress")
        case True
        have o3: "engine_ok (ps\<lparr>root := ?r3\<rparr>)" by (rule engine_ok_root [OF ok]) simp
        from Remove_engine [OF o3, of "Ref a"] obtain b where
          b: "Remove (Ref a) (mbuf ps) = Inr b" "engine_ok (ps\<lparr>root := ?r3, mbuf := b\<rparr>)"
          by auto
        from body Inr ne None True b(1)
        have pa: "ping_append env (ps\<lparr>root := ?r3, mbuf := b\<rparr>) = (out, ps')"
          by (simp add: ping_body_def Let_def)
        from ping_append_engine [OF b(2) pa] show ?thesis by simp
      next
        case F: False
        let ?r4 = "?r3\<lparr>heap := (heap ?r3)(a := (heap ?r3 a)
                          \<lparr>IsPartiallyFinished := Root_IsPartiallyFinished m\<rparr>)\<rparr>"
        have o4: "engine_ok (ps\<lparr>root := ?r4\<rparr>)" by (rule engine_ok_root [OF ok]) simp
        from body Inr ne None F have pa: "ping_append env (ps\<lparr>root := ?r4\<rparr>) = (out, ps')"
          by (simp add: ping_body_def Let_def)
        from ping_append_engine [OF o4 pa] show ?thesis by simp
      qed
    qed
  qed
qed

lemma ping_round_end_engine:
  assumes ok: "engine_ok ps" and re: "ping_round_end env ps = (out, ps')"
  shows "engine_ok ps' \<and> (\<forall>p. out \<noteq> Crashed p)"
proof (cases "Len (mbuf ps) > 0")
  case True
  with re have "out = Running"
    "ps' = ps\<lparr>root := (root ps)\<lparr>trace := trace (root ps) @
                       [CallSleep (APIMinInterval (ctx (root ps)) - elapsedTime ps)]\<rparr>\<rparr>"
    by (simp_all add: ping_round_end_def)
  with engine_ok_root [OF ok] show ?thesis by simp
next
  case False
  then have em: "items (mbuf ps) = []" by (simp add: Len_def)
  show ?thesis
  proof (cases "runErr ps")
    case (Some e)
    with re False ok show ?thesis by (auto simp: ping_round_end_def)
  next
    case None
    let ?o1 = "case Last (History (ctx (root ps))) of nil \<Rightarrow> opts ps
               | Ref l \<Rightarrow> (opts ps)\<lparr>mcLocations := [\<lparr>Magic = Id (heap (root ps) l)\<rparr>]\<rparr>"
    obtain res r1 where cm: "createMeasurement env ?o1 (root ps) = (res, r1)" by fastforce
    from createMeasurement_addr [OF cm]
    have ad: "case res of Inl e \<Rightarrow> next_addr r1 = next_addr (root ps)
         | Inr hm \<Rightarrow> hm = Ref (next_addr (root ps)) \<and> next_addr r1 = Suc (next_addr (root ps))" .
    from engine_okD [OF ok] have w: "window_ok (mbuf ps)" and c2: "capacity (mbuf ps) = 2"
      by simp_all
    show ?thesis
    proof (cases res)
      case (Inl e)
      with re False None cm have "out = Returned e" "ps' = ps\<lparr>root := r1, opts := ?o1\<rparr>"
        by (simp_all add: ping_round_end_def Let_def)
      moreover from ok ad Inl have "engine_ok (ps\<lparr>root := r1, opts := ?o1\<rparr>)"
        by (simp add: engine_ok_iff)
      ultimately show ?thesis by simp
    next
      case (Inr hm)
      with re False None cm have o: "out = Running"
        and p': "ps' = ps\<lparr>root := r1, opts := ?o1, mbuf := Append hm (mbuf ps)\<rparr>"
        by (simp_all add: ping_round_end_def Let_def)
      from ad Inr have na: "hm = Ref (next_addr (root ps))" "next_addr r1 = Suc (next_addr (root ps))"
        by simp_all
      have "engine_ok ps'"
      proof (rule engine_okI)
        show "window_ok (mbuf ps')" using w em p' by (auto simp: window_ok_def Append_def)
        show "capacity (mbuf ps') = 2" using c2 p' by (simp add: Append_def)
        show "length (items (mbuf ps')) \<le> 2" using em p' by (simp add: Append_def)
        show "\<And>a. Ref a \<in> set (items (mbuf ps')) \<Longrightarrow> a < next_addr (root ps')"
          using em na p' by (auto simp: Append_def)
        show "nil \<in> set (items (mbuf ps')) \<Longrightarrow> runErr ps' \<noteq> None"
          using em na p' by (auto simp: Append_def)
      qed
      with o show ?thesis by simp
    qed
  qed
qed

lemma Next_engine:
  assumes "engine_ok ps"
  shows "\<exists>el1 b1. Next (mbuf ps) = Inr (el1, b1) \<and> engine_ok (ps\<lparr>mbuf := b1\<rparr>)"
  using assms
  by (auto simp: Next_def engine_ok_iff window_ok_def)

lemma Restart_engine:
  assumes "engine_ok ps"
  shows "engine_ok (ps\<lparr>mbuf := Restart (mbuf ps), elapsedTime := 0\<rparr>)"
  using assms by (auto simp: Restart_def engine_ok_iff window_ok_def)

text \<open>
  Every state that the loop reaches holds a window as described by \<open>engine_ok\<close>, and
  the only panic it can meet is the read of \<open>History.Last().Id\<close> through \<open>nil\<close>.
\<close>

lemma ping_loop_engine:
  "engine_ok ps \<Longrightarrow> ping_loop env n el ps = (out, ps') \<Longrightarrow>
   engine_ok ps' \<and> (\<forall>p. out = Crashed p \<longrightarrow> p = NilPointerDereference)"
proof (induction n arbitrary: el ps)
  case 0
  then show ?case by simp
next
  case (Suc n)
  show ?case
  proof (cases el)
    case nil
    obtain o1 ps1 where st: "ping_round_end env ps = (o1, ps1)" by fastforce
    from ping_round_end_engine [OF Suc.prems(1) st]
    have k1: "engine_ok ps1" and nc: "\<forall>p. o1 \<noteq> Crashed p" by simp_all
    show ?thesis
    proof (cases o1)
      case Running
      let ?ps2 = "ps1\<lparr>mbuf := Restart (mbuf ps1), elapsedTime := 0\<rparr>"
      from Next_engine [OF Restart_engine [OF k1]] obtain el1 b1 where
        nx: "Next (Restart (mbuf ps1)) = Inr (el1, b1)" and k2: "engine_ok (?ps2\<lparr>mbuf := b1\<rparr>)"
        by auto
      let ?ps3 = "ps1\<lparr>mbuf := b1, elapsedTime := 0\<rparr>"
      from k2 have k3: "engine_ok ?ps3" by (simp add: engine_ok_iff)
      from Suc.prems(2) nil st Running nx have lp: "ping_loop env n el1 ?ps3 = (out, ps')" by simp
      from Suc.IH [OF k3 lp] show ?thesis .
    next
      case (Returned e)
      with Suc.prems(2) nil st k1 show ?thesis by auto
    next
      case (Crashed p)
      with nc show ?thesis by simp
    qed
  next
    case (Ref a)
    obtain o1 ps1 where st: "ping_body env a ps = (o1, ps1)" by fastforce
    from ping_body_engine [OF Suc.prems(1) st]
    have k1: "engine_ok ps1" and nc: "\<forall>p. o1 = Crashed p \<longrightarrow> p = NilPointerDereference"
      by simp_all
    show ?thesis
    proof (cases o1)
      case Running
      from Next_engine [OF k1] obtain el1 b1 where
        nx: "Next (mbuf ps1) = Inr (el1, b1)" and k2: "engine_ok (ps1\<lparr>mbuf := b1\<rparr>)" by auto
      from Suc.prems(2) Ref st Running nx
      have lp: "ping_loop env n el1 (ps1\<lparr>mbuf := b1\<rparr>) = (out, ps')" by simp
      from Suc.IH [OF k2 lp] show ?thesis .
    next
      case (Returned e)
      with Suc.prems(2) Ref st k1 show ?thesis by auto
    next
      case (Crashed p)
      with Suc.prems(2) Ref st k1 nc show ?thesis by auto
    qed
  qed
qed

lemma ping_engine:
  assumes "ping env n mc r = (out, ps')"
  shows "engine_ok ps' \<and> (\<forall>p. out = Crashed p \<longrightarrow> p = NilPointerDereference)"
proof -
  let ?ps = "ping_init mc r \<lparr>capacity = 2, items = [], pos = 0\<rparr>"
  have i: "engine_ok ?ps" by (simp add: engine_ok_iff window_ok_def ping_init_def)
  from assms have "ping_loop env n nil ?ps = (out, ps')"
    by (simp add: ping_def NewMeasurementsBuffer_def Restart_def Next_def)
  from ping_loop_engine [OF i this] show ?thesis .
qed

text \<open>
  Hence, wherever \<open>ping\<close> calls \<open>CanAppend\<close> (no error is pending there), the window
  holds no \<open>nil\<close> handle and the call answers whether there is spare capacity and a
  partially finished item.
\<close>

lemma engine_CanAppend:
  assumes "engine_ok ps" and "runErr ps = None"
  shows "CanAppend (heap (root ps)) (mbuf ps) =
           Inr (int (length (items (mbuf ps))) < capacity (mbuf ps) \<and>
                (\<exists>a. Ref a \<in> set (items (mbuf ps)) \<and> IsPartiallyFinished (heap (root ps) a)))"
  using engine_okD(5) [OF assms] by (auto simp: CanAppend_def CanAppend_loop_no_nil)

end
